theory Spec2Isabelle
  imports Complex_Main "HOL-Library.Signed_Division" "HOL-Library.Word"
begin

section \<open>Go machine integers and run-time panics\<close>

text \<open>
  Go's \<^verbatim>\<open>int\<close> is a 64-bit two's complement integer on the platforms the node runs on.
  It is modelled as a HOL \<open>int\<close> together with the wrap-around of every addition and
  subtraction written out. Division truncates towards zero and panics on a zero divisor.
\<close>

datatype panic = DivideByZero | IndexOutOfRange

datatype 'a outcome = Returns 'a | Panics panic

definition wrap64 :: "int \<Rightarrow> int" where
  "wrap64 x = (x + 2 ^ 63) mod 2 ^ 64 - 2 ^ 63"

definition is_int64 :: "int \<Rightarrow> bool" where
  "is_int64 x \<longleftrightarrow> - (2 ^ 63) \<le> x \<and> x < 2 ^ 63"

definition go_div :: "int \<Rightarrow> int \<Rightarrow> panic + int" where
  "go_div a b = (if b = 0 then Inl DivideByZero else Inr (wrap64 (a sdiv b)))"

definition go_mod :: "int \<Rightarrow> int \<Rightarrow> panic + int" where
  "go_mod a b = (if b = 0 then Inl DivideByZero else Inr (a smod b))"

section \<open>Go errors\<close>

text \<open>
  An error value is a sentinel (a package-level variable compared by identity), a fresh
  error made by \<^verbatim>\<open>errors.New\<close> or by \<^verbatim>\<open>fmt.Errorf\<close> without \<^verbatim>\<open>%w\<close>, an error wrapped
  by \<^verbatim>\<open>fmt.Errorf\<close> with \<^verbatim>\<open>%w\<close> under a message, or an error tagged by
  \<^verbatim>\<open>orberrors.NewTransient\<close>.
\<close>

datatype sentinel =
    StorageErrDataNotFound
  | StorageErrDuplicateKey
  | DidAnchorErrDataNotFound
  | ErrContentNotFound

datatype error =
    Sentinel sentinel
  | New string
  | Wrap string error
  | NewTransient error

text \<open>\<^verbatim>\<open>errors.Is\<close> against a sentinel follows the chain of wrapped errors.\<close>

fun Is :: "error \<Rightarrow> sentinel \<Rightarrow> bool" where
  "Is (Sentinel s) t = (s = t)"
| "Is (New m) t = False"
| "Is (Wrap m e) t = Is e t"
| "Is (NewTransient e) t = Is e t"

text \<open>
  Modelled from the spec: the package \<^verbatim>\<open>pkg/errors\<close> is not part of the sources at hand.
  Section 7 of the specification: every error carries a tag, and composite wrappers
  preserve the innermost tag. An error is transient when a transient-tagged error occurs in
  its chain.
\<close>

fun IsTransient :: "error \<Rightarrow> bool" where
  "IsTransient (Sentinel s) = False"
| "IsTransient (New m) = False"
| "IsTransient (Wrap m e) = IsTransient e"
| "IsTransient (NewTransient e) = True"

section \<open>REST handler: paging of ordered collections\<close>

text \<open>
  \<^verbatim>\<open>spi.SortOrder\<close> has the two constants \<^verbatim>\<open>SortAscending\<close> and \<^verbatim>\<open>SortDescending\<close>;
  \<^verbatim>\<open>spi.QueryOptions\<close> carries the page number, the page size and the sort order.
\<close>

datatype SortOrder = SortAscending | SortDescending

record QueryOptions =
  PageNumber :: int
  PageSize :: int
  SortOrder :: SortOrder

definition getPrevNextAscending :: "int \<Rightarrow> int \<Rightarrow> int \<Rightarrow> int \<times> int" where
  "getPrevNextAscending current firstPage lastPage =
     (let next = (if current < lastPage then wrap64 (current + 1) else - 1);
          prev = (if current > firstPage
                  then (if current > lastPage then lastPage else wrap64 (current - 1))
                  else - 1)
      in (prev, next))"

definition getPrevNextDescending :: "int \<Rightarrow> int \<Rightarrow> int \<Rightarrow> int \<times> int" where
  "getPrevNextDescending current firstPage lastPage =
     (let next = (if current > lastPage
                  then (if current > firstPage then firstPage else wrap64 (current - 1))
                  else - 1);
          prev = (if current < firstPage then wrap64 (current + 1) else - 1)
      in (prev, next))"

definition pageCount :: "int \<Rightarrow> int \<Rightarrow> panic + int" where
  \<comment> \<open>the tail shared by \<^verbatim>\<open>getFirstPageNum\<close> and \<^verbatim>\<open>getLastPageNum\<close>\<close>
  "pageCount totalItems pageSize =
     (case go_mod totalItems pageSize of
        Inl p \<Rightarrow> Inl p
      | Inr r \<Rightarrow>
          (case go_div totalItems pageSize of
             Inl p \<Rightarrow> Inl p
           | Inr q \<Rightarrow> if r > 0 then Inr q else Inr (wrap64 (q - 1))))"

definition getFirstPageNum :: "int \<Rightarrow> int \<Rightarrow> SortOrder \<Rightarrow> panic + int" where
  "getFirstPageNum totalItems pageSize sortOrder =
     (if sortOrder = SortAscending then Inr 0 else pageCount totalItems pageSize)"

definition getLastPageNum :: "int \<Rightarrow> int \<Rightarrow> SortOrder \<Rightarrow> panic + int" where
  "getLastPageNum totalItems pageSize sortOrder =
     (if sortOrder = SortDescending then Inr 0 else pageCount totalItems pageSize)"

definition getCurrentPrevNext :: "int \<Rightarrow> QueryOptions \<Rightarrow> panic + int \<times> int \<times> int" where
  "getCurrentPrevNext totalItems options =
     (case getFirstPageNum totalItems (PageSize options) (SortOrder options) of
        Inl p \<Rightarrow> Inl p
      | Inr firstPage \<Rightarrow>
          (case getLastPageNum totalItems (PageSize options) (SortOrder options) of
             Inl p \<Rightarrow> Inl p
           | Inr lastPage \<Rightarrow>
               (let current = (if PageNumber options \<ge> 0 then PageNumber options else firstPage);
                    (prev, next) = (if SortOrder options = SortDescending
                                    then getPrevNextDescending current firstPage lastPage
                                    else getPrevNextAscending current firstPage lastPage)
                in Inr (current, prev, next))))"

text \<open>Decimal printing of an integer, as \<^verbatim>\<open>%d\<close> of \<^verbatim>\<open>fmt.Sprintf\<close> does.\<close>

definition digit_char :: "nat \<Rightarrow> char" where
  "digit_char d = char_of (48 + d)"

fun nat_digits :: "nat \<Rightarrow> string" where
  "nat_digits n = (if n < 10 then [digit_char n] else nat_digits (n div 10) @ [digit_char (n mod 10)])"

declare nat_digits.simps [simp del]

definition itoa :: "int \<Rightarrow> string" where
  "itoa i = (if i < 0 then CHR ''-'' # nat_digits (nat (- i)) else nat_digits (nat i))"

definition getPageID :: "string \<Rightarrow> int \<Rightarrow> string" where
  "getPageID objectIRI pageNum =
     (let delimiter = (if CHR ''?'' \<in> set objectIRI then ''&'' else ''?'')
      in if pageNum \<ge> 0
         then objectIRI @ delimiter @ ''page'' @ ''=true&'' @ ''page-num'' @ ''='' @ itoa pageNum
         else objectIRI @ delimiter @ ''page'' @ ''=true'')"

text \<open>
  \<^verbatim>\<open>getPageURL\<close> parses the identifier of a page with \<^verbatim>\<open>url.Parse\<close>, which is a parameter
  (\<open>'u\<close> is the type of parsed URLs). \<^verbatim>\<open>getIDPrevNextURL\<close> returns the URL of the page and its
  optional \<^verbatim>\<open>prev\<close> and \<^verbatim>\<open>next\<close> links, a link being absent (\<^verbatim>\<open>nil\<close>) when its page number
  is negative, or the error of the first page identifier that does not parse.
\<close>

definition getPageURL :: "(string \<Rightarrow> error + 'u) \<Rightarrow> string \<Rightarrow> int \<Rightarrow> error + 'u" where
  "getPageURL parseURL objectIRI pageNum =
     (let pageID = getPageID objectIRI pageNum
      in case parseURL pageID of
           Inl err \<Rightarrow> Inl (Wrap (''invalid 'page' URL ['' @ pageID @ '']'') err)
         | Inr pageURL \<Rightarrow> Inr pageURL)"

definition getIDPrevNextURL ::
  "(string \<Rightarrow> error + 'u) \<Rightarrow> string \<Rightarrow> int \<Rightarrow> QueryOptions
     \<Rightarrow> (error + 'u \<times> 'u option \<times> 'u option) outcome" where
  "getIDPrevNextURL parseURL objectIRI totalItems options =
     (case getCurrentPrevNext totalItems options of
        Inl p \<Rightarrow> Panics p
      | Inr (current, prev, next) \<Rightarrow>
          (case (if prev \<ge> 0
                 then (case getPageURL parseURL objectIRI prev of
                         Inl err \<Rightarrow> Inl err
                       | Inr u \<Rightarrow> Inr (Some u))
                 else Inr None) of
             Inl err \<Rightarrow> Returns (Inl err)
           | Inr prevURL \<Rightarrow>
               (case (if next \<ge> 0
                      then (case getPageURL parseURL objectIRI next of
                              Inl err \<Rightarrow> Inl err
                            | Inr u \<Rightarrow> Inr (Some u))
                      else Inr None) of
                  Inl err \<Rightarrow> Returns (Inl err)
                | Inr nextURL \<Rightarrow>
                    (case getPageURL parseURL objectIRI current of
                       Inl err \<Rightarrow> Returns (Inl err)
                     | Inr pageURI \<Rightarrow> Returns (Inr (pageURI, prevURL, nextURL))))))"

text \<open>
  Modelled from the spec: the handler method that assembles the page (\<^verbatim>\<open>getPage\<close>) and the
  paged query of the activity store are not part of the sources at hand. Sections 4.7, 4.9
  and 8 (property 4, scenarios S3 and S4) of the specification: the pages from the first to
  the last hold every item exactly once, a page size at a time, in insertion order when
  ascending and in the reverse order when descending; a page response carries its items, the
  number of all items, and the \<^verbatim>\<open>prev\<close> and \<^verbatim>\<open>next\<close> links computed with the formulas above.
  \<open>pageItems\<close> takes the items in insertion order, the current page number and the first
  page number.
\<close>

definition pageItems :: "'a list \<Rightarrow> QueryOptions \<Rightarrow> int \<Rightarrow> int \<Rightarrow> 'a list" where
  "pageItems items options current firstPage =
     (let position = (if SortOrder options = SortDescending then firstPage - current
                      else current - firstPage);
          ordered = (if SortOrder options = SortDescending then rev items else items)
      in if position < 0 then []
         else take (nat (PageSize options)) (drop (nat (position * PageSize options)) ordered))"

record ('a, 'u) OrderedCollectionPage =
  page_id :: 'u
  page_orderedItems :: "'a list"
  page_totalItems :: int
  page_prev :: "'u option"
  page_next :: "'u option"

definition getPage ::
  "(string \<Rightarrow> error + 'u) \<Rightarrow> string \<Rightarrow> 'a list \<Rightarrow> QueryOptions
     \<Rightarrow> (error + ('a, 'u) OrderedCollectionPage) outcome" where
  "getPage parseURL objectIRI items options =
     (let totalItems = int (length items)
      in case getFirstPageNum totalItems (PageSize options) (SortOrder options) of
           Inl p \<Rightarrow> Panics p
         | Inr firstPage \<Rightarrow>
             (case getCurrentPrevNext totalItems options of
                Inl p \<Rightarrow> Panics p
              | Inr (current, prev, next) \<Rightarrow>
                  (case getIDPrevNextURL parseURL objectIRI totalItems options of
                     Panics p \<Rightarrow> Panics p
                   | Returns (Inl err) \<Rightarrow> Returns (Inl err)
                   | Returns (Inr (pageURI, prevURL, nextURL)) \<Rightarrow>
                       Returns (Inr \<lparr>page_id = pageURI,
                                     page_orderedItems = pageItems items options current firstPage,
                                     page_totalItems = totalItems,
                                     page_prev = prevURL,
                                     page_next = nextURL\<rparr>))))"

text \<open>
  A parser for concrete instances: like \<^verbatim>\<open>url.Parse\<close> it rejects a string that begins with a
  colon, whose scheme is missing; any other string stands for its own URL.
\<close>

definition sampleParseURL :: "string \<Rightarrow> error + string" where
  "sampleParseURL s =
     (if take 1 s = '':'' then Inl (New ''missing protocol scheme'') else Inr s)"

section \<open>AMQP publisher pool: round-robin selection\<close>

text \<open>
  The balancer keeps its bound as a Go \<^verbatim>\<open>int\<close> and its counter as an \<^verbatim>\<open>int32\<close>. The
  atomic operations are modelled for a single caller: \<^verbatim>\<open>AddInt32\<close> returns the new value
  together with the updated cell, \<^verbatim>\<open>CompareAndSwapInt32\<close> the success flag together with
  the updated cell.
\<close>

record roundRobin =
  max_rr :: int
  current_rr :: "32 word"

definition newRoundRobin :: "int \<Rightarrow> roundRobin" where
  "newRoundRobin m = \<lparr>max_rr = m, current_rr = 0\<rparr>"

definition AddInt32 :: "32 word \<Rightarrow> 32 word \<Rightarrow> 32 word \<times> 32 word" where
  "AddInt32 addr delta = (addr + delta, addr + delta)"

definition CompareAndSwapInt32 :: "32 word \<Rightarrow> 32 word \<Rightarrow> 32 word \<Rightarrow> bool \<times> 32 word" where
  "CompareAndSwapInt32 addr old new = (if addr = old then (True, new) else (False, addr))"

function nextIndex :: "roundRobin \<Rightarrow> int \<times> roundRobin" where
  "nextIndex r =
     (case AddInt32 (current_rr r) 1 of (i, cur) \<Rightarrow>
        if sint i > max_rr r
        then (case CompareAndSwapInt32 cur i 0 of (swapped, cur') \<Rightarrow>
                if \<not> swapped then nextIndex (r\<lparr>current_rr := cur'\<rparr>)
                else (0, r\<lparr>current_rr := cur'\<rparr>))
        else (sint i, r\<lparr>current_rr := cur\<rparr>))"
  by pat_completeness auto
termination
  by (relation "{}") (auto simp: AddInt32_def CompareAndSwapInt32_def)

declare nextIndex.simps [simp del]

fun calls :: "nat \<Rightarrow> roundRobin \<Rightarrow> roundRobin" where
  "calls 0 r = r"
| "calls (Suc n) r = snd (nextIndex (calls n r))"

text \<open>
  Indexing a slice panics outside its bounds. The pool of \<^verbatim>\<open>newPublisherPool\<close> publishes
  through its only publisher when there is exactly one, and through the publisher picked by
  a balancer with bound \<^verbatim>\<open>len(publishers) - 1\<close> otherwise. \<open>Publish\<close> returns the publisher
  that is used.
\<close>

definition index :: "'a list \<Rightarrow> int \<Rightarrow> panic + 'a" where
  "index xs i = (if 0 \<le> i \<and> i < int (length xs) then Inr (xs ! nat i) else Inl IndexOutOfRange)"

record 'p publisherPool =
  publishers :: "'p list"
  balancer :: "roundRobin option"

definition newPublisherPool :: "'p list \<Rightarrow> 'p publisherPool" where
  "newPublisherPool pubs =
     \<lparr>publishers = pubs,
      balancer = (if length pubs = 1 then None
                  else Some (newRoundRobin (wrap64 (int (length pubs) - 1))))\<rparr>"

definition Publish :: "'p publisherPool \<Rightarrow> (panic + 'p) \<times> 'p publisherPool" where
  "Publish p =
     (case balancer p of
        None \<Rightarrow> (index (publishers p) 0, p)
      | Some lb \<Rightarrow>
          (case nextIndex lb of (i, lb') \<Rightarrow> (index (publishers p) i, p\<lparr>balancer := Some lb'\<rparr>)))"

fun publishes :: "nat \<Rightarrow> 'p publisherPool \<Rightarrow> 'p publisherPool" where
  "publishes 0 p = p"
| "publishes (Suc n) p = snd (Publish (publishes n p))"

text \<open>The invariant of the balancer: the counter is a valid index.\<close>

definition rr_inv :: "roundRobin \<Rightarrow> bool" where
  "rr_inv r \<longleftrightarrow> 0 \<le> sint (current_rr r) \<and> sint (current_rr r) \<le> max_rr r"

section \<open>The storage interface\<close>

text \<open>
  \<^verbatim>\<open>storage.Store\<close> is an external interface. A back-end is given by its state and by the
  outcome of each of its methods in a state. An operation of a batch carries a key, a value
  and optional put options with the \<^verbatim>\<open>IsNewKey\<close> hint. An iterator returned by \<^verbatim>\<open>Query\<close> is
  the sequence of outcomes of its successive \<^verbatim>\<open>Next\<close> calls: an error of \<^verbatim>\<open>Next\<close>, or an
  element whose \<^verbatim>\<open>Value\<close> is read successfully or fails; at the end of the sequence
  \<^verbatim>\<open>Next\<close> returns \<^verbatim>\<open>false\<close>.
\<close>

record PutOptions =
  IsNewKey :: bool

record Operation =
  Key :: string
  Value :: "string option"
  PutOptions :: "PutOptions option"

datatype iter_step = NextFails error | ValueFails error | Item string

record 's storage =
  store_Get :: "'s \<Rightarrow> string \<Rightarrow> error + string"
  store_GetBulk :: "'s \<Rightarrow> string list \<Rightarrow> error + string option list"
  store_Batch :: "'s \<Rightarrow> Operation list \<Rightarrow> error option \<times> 's"
  store_Query :: "'s \<Rightarrow> string \<Rightarrow> error + iter_step list"

section \<open>DID anchor store\<close>

text \<open>
  \<^verbatim>\<open>PutBulk\<close> returns its error (if any), the state of the back-end afterwards and, for
  reference, the batches it has submitted in order. Reading \<^verbatim>\<open>areNew[i]\<close> beyond the end of
  \<^verbatim>\<open>areNew\<close> panics before any batch is submitted.
\<close>

definition hintedOperations :: "string list \<Rightarrow> bool list \<Rightarrow> string \<Rightarrow> Operation list" where
  "hintedOperations suffixes areNew cid =
     map (\<lambda>(suffix, isNew).
            \<lparr>Key = suffix, Value = Some cid, PutOptions = Some \<lparr>IsNewKey = isNew\<rparr>\<rparr>)
         (zip suffixes areNew)"

definition plainOperations :: "string list \<Rightarrow> string \<Rightarrow> Operation list" where
  "plainOperations suffixes cid =
     map (\<lambda>suffix. \<lparr>Key = suffix, Value = Some cid, PutOptions = None\<rparr>) suffixes"

definition didanchor_PutBulk ::
  "'s storage \<Rightarrow> 's \<Rightarrow> string list \<Rightarrow> bool list \<Rightarrow> string
     \<Rightarrow> (error option \<times> 's \<times> Operation list list) outcome" where
  "didanchor_PutBulk st s suffixes areNew cid =
     (if length suffixes = 0 then Returns (Some (New ''no suffixes provided''), s, [])
      else if length areNew < length suffixes then Panics IndexOutOfRange
      else
        (let operations = hintedOperations suffixes areNew cid
         in case store_Batch st s operations of
              (None, s1) \<Rightarrow> Returns (None, s1, [operations])
            | (Some err, s1) \<Rightarrow>
                if Is err StorageErrDuplicateKey
                then
                  (let operations' = plainOperations suffixes cid
                   in case store_Batch st s1 operations' of
                        (None, s2) \<Rightarrow> Returns (None, s2, [operations, operations'])
                      | (Some err', s2) \<Rightarrow>
                          Returns (Some (NewTransient
                                     (Wrap (''failed to add cid['' @ cid @ ''] to suffixes'') err')),
                                   s2, [operations, operations']))
                else Returns (Some (NewTransient
                                (Wrap (''failed to add cid['' @ cid @ ''] to suffixes'') err)),
                              s1, [operations])))"

text \<open>
  \<^verbatim>\<open>GetBulk\<close> allocates one anchor per suffix and fills it from the values of the
  back-end, a \<^verbatim>\<open>nil\<close> value becoming the empty string; more values than suffixes would write
  beyond the end of the slice.
\<close>

definition didanchor_GetBulk :: "'s storage \<Rightarrow> 's \<Rightarrow> string list \<Rightarrow> (error + string list) outcome" where
  "didanchor_GetBulk st s suffixes =
     (case store_GetBulk st s suffixes of
        Inl err \<Rightarrow>
          Returns (Inl (NewTransient (Wrap ''failed to get did anchor reference'' err)))
      | Inr anchorBytes \<Rightarrow>
          if length suffixes < length anchorBytes then Panics IndexOutOfRange
          else Returns (Inr (map (\<lambda>a. case a of None \<Rightarrow> '''' | Some v \<Rightarrow> v) anchorBytes
                             @ replicate (length suffixes - length anchorBytes) '''')))"

definition didanchor_Get :: "'s storage \<Rightarrow> 's \<Rightarrow> string \<Rightarrow> error + string" where
  "didanchor_Get st s suffix =
     (case store_Get st s suffix of
        Inl err \<Rightarrow>
          if Is err StorageErrDataNotFound then Inl (Sentinel DidAnchorErrDataNotFound)
          else Inl (NewTransient
                 (Wrap ''failed to get content from the underlying storage provider'' err))
      | Inr anchorBytes \<Rightarrow> Inr anchorBytes)"

text \<open>
  Modelled from the spec: the storage back-ends are external collaborators. Section 4.2 of
  the specification: \<^verbatim>\<open>Get\<close> returns the not-found error for an absent key, \<^verbatim>\<open>GetBulk\<close>
  returns one value (possibly nil) per key in the same order, a batch is applied atomically
  and in order, and (section 4.15) a batch is rejected with the duplicate-key error when an
  \<^verbatim>\<open>IsNewKey\<close> hint is wrong. The state is the key/value map; queries are not supported.
\<close>

definition wrongHint :: "(string \<rightharpoonup> string) \<Rightarrow> Operation \<Rightarrow> bool" where
  "wrongHint m op \<longleftrightarrow>
     (case PutOptions op of None \<Rightarrow> False | Some po \<Rightarrow> IsNewKey po \<and> m (Key op) \<noteq> None)"

fun applyOperations :: "(string \<rightharpoonup> string) \<Rightarrow> Operation list \<Rightarrow> (string \<rightharpoonup> string)" where
  "applyOperations m [] = m"
| "applyOperations m (op # ops) = applyOperations (m(Key op := Value op)) ops"

definition memStorage :: "(string \<rightharpoonup> string) storage" where
  "memStorage =
     \<lparr>store_Get = (\<lambda>m k. case m k of None \<Rightarrow> Inl (Sentinel StorageErrDataNotFound)
                                     | Some v \<Rightarrow> Inr v),
      store_GetBulk = (\<lambda>m ks. Inr (map m ks)),
      store_Batch = (\<lambda>m ops. if list_ex (wrongHint m) ops
                              then (Some (Sentinel StorageErrDuplicateKey), m)
                              else (None, applyOperations m ops)),
      store_Query = (\<lambda>m q. Inl (New ''querying is not supported''))\<rparr>"

text \<open>The outcomes of the two batches of \<^verbatim>\<open>PutBulk\<close>, as the back-end decides them.\<close>

definition firstBatchFailsDuplicate ::
  "'s storage \<Rightarrow> 's \<Rightarrow> string list \<Rightarrow> bool list \<Rightarrow> string \<Rightarrow> bool" where
  "firstBatchFailsDuplicate st s suffixes areNew cid \<longleftrightarrow>
     (case fst (store_Batch st s (hintedOperations suffixes areNew cid)) of
        None \<Rightarrow> False | Some e \<Rightarrow> Is e StorageErrDuplicateKey)"

definition firstBatchFailsOther ::
  "'s storage \<Rightarrow> 's \<Rightarrow> string list \<Rightarrow> bool list \<Rightarrow> string \<Rightarrow> bool" where
  "firstBatchFailsOther st s suffixes areNew cid \<longleftrightarrow>
     (case fst (store_Batch st s (hintedOperations suffixes areNew cid)) of
        None \<Rightarrow> False | Some e \<Rightarrow> \<not> Is e StorageErrDuplicateKey)"

definition retryFails ::
  "'s storage \<Rightarrow> 's \<Rightarrow> string list \<Rightarrow> bool list \<Rightarrow> string \<Rightarrow> bool" where
  "retryFails st s suffixes areNew cid \<longleftrightarrow>
     fst (store_Batch st (snd (store_Batch st s (hintedOperations suffixes areNew cid)))
            (plainOperations suffixes cid)) \<noteq> None"

section \<open>Unpublished operation store\<close>










section \<open>Observer\<close>

text \<open>
  The observer works through collaborators that are interfaces or packages outside the
  sources at hand: the anchor graph, the protocol client provider, the transaction processor,
  the DID anchor index, the outbox, the CAS resolver, the credential parser, the WebFinger
  resolver and \<^verbatim>\<open>net/url\<close>. The outcome of each of their calls is a field of the record
  below; \<open>'vc\<close> is the type of credentials, \<open>'pc\<close> of protocol clients, \<open>'pv\<close> of protocol
  versions and \<open>'u\<close> of parsed URLs.
\<close>

record AnchorInfo =
  Hashlink :: string
  LocalHashlink :: string
  AttributedTo :: string

record AnchorPayload =
  Namespace :: string
  Version :: nat
  OperationCount :: nat
  CoreIndex :: string
  PreviousAnchors :: "(string \<times> string) list"

record SidetreeTxn =
  TransactionTime :: nat
  AnchorString :: string
  TxnNamespace :: string
  ProtocolGenesisTime :: nat
  CanonicalReference :: string
  EquivalentReferences :: "string list"

datatype 'u recipient = Actor 'u | PublicIRI

record 'u LikeActivity =
  like_object :: 'u
  like_to :: "'u recipient list"
  like_result :: "'u option"

record ('vc, 'pc, 'pv, 'u) Observer =
  discoveryDomain :: string
  AnchorGraph_Read :: "string \<Rightarrow> error + 'vc"
  GetAnchorSubject :: "'vc \<Rightarrow> error + AnchorPayload"
  Issued_Unix :: "'vc \<Rightarrow> nat"
  ForNamespace :: "string \<Rightarrow> error + 'pc"
  pc_Get :: "'pc \<Rightarrow> nat \<Rightarrow> error + 'pv"
  GetAnchorString :: "nat \<Rightarrow> string \<Rightarrow> string"
  GetResourceHashFromHashLink :: "string \<Rightarrow> error + string"
  Process :: "'pv \<Rightarrow> SidetreeTxn \<Rightarrow> string list \<Rightarrow> error option"
  DidAnchors_PutBulk :: "string list \<Rightarrow> string \<Rightarrow> error option"
  Outbox_Post :: "'u LikeActivity \<Rightarrow> error option"
  url_Parse :: "string \<Rightarrow> error + 'u"
  url_String :: "'u \<Rightarrow> string"
  CASResolver_Resolve :: "string \<Rightarrow> error + string"
  ParseCredential :: "string \<Rightarrow> error + 'vc"
  subject_attributedTo :: "'vc \<Rightarrow> string option"
  ResolveHostMetaLink :: "string \<Rightarrow> error + string"

text \<open>The calls that change something outside the observer, in the order they are made.\<close>

datatype ('pv, 'u) effect =
    Processed 'pv SidetreeTxn "string list"
  | IndexUpdated "string list" string
  | Posted "'u LikeActivity"

definition resolveActorFromHashlink :: "('vc, 'pc, 'pv, 'u) Observer \<Rightarrow> string \<Rightarrow> error + 'u" where
  "resolveActorFromHashlink obs hl =
     (case CASResolver_Resolve obs hl of
        Inl err \<Rightarrow> Inl (Wrap ''resolve anchor credential'' err)
      | Inr vcBytes \<Rightarrow>
          (case ParseCredential obs vcBytes of
             Inl err \<Rightarrow> Inl (Wrap ''parse anchor credential'' err)
           | Inr vc \<Rightarrow>
               (case subject_attributedTo obs vc of
                  None \<Rightarrow>
                    Inl (New (''\"attributedTo\" field not found in anchor credential for [''
                               @ hl @ '']''))
                | Some attributedTo \<Rightarrow>
                    (case ResolveHostMetaLink obs attributedTo of
                       Inl err \<Rightarrow>
                         Inl (Wrap (''resolve host meta-link for ['' @ attributedTo @ '']'') err)
                     | Inr hml \<Rightarrow>
                         (case url_Parse obs hml of
                            Inl err \<Rightarrow> Inl (Wrap (''parse URL ['' @ hml @ '']'') err)
                          | Inr actor \<Rightarrow> Inr actor)))))"

definition NewLikeActivity :: "'u \<Rightarrow> 'u \<Rightarrow> 'u option \<Rightarrow> 'u LikeActivity" where
  "NewLikeActivity toActor refURL result =
     \<lparr>like_object = refURL, like_to = [Actor toActor, PublicIRI], like_result = result\<rparr>"

definition doPostLikeActivity ::
  "('vc, 'pc, 'pv, 'u) Observer \<Rightarrow> 'u \<Rightarrow> 'u \<Rightarrow> 'u option \<Rightarrow> error option \<times> ('pv, 'u) effect list" where
  "doPostLikeActivity obs toActor refURL result =
     (let like = NewLikeActivity toActor refURL result
      in case Outbox_Post obs like of
           Some err \<Rightarrow> (Some (Wrap ''post like'' err), [Posted like])
         | None \<Rightarrow> (None, [Posted like]))"

definition postLikeActivity ::
  "('vc, 'pc, 'pv, 'u) Observer \<Rightarrow> AnchorInfo \<Rightarrow> error option \<times> ('pv, 'u) effect list" where
  "postLikeActivity obs anchor =
     (if AttributedTo anchor = '''' then (None, [])
      else
        case url_Parse obs (Hashlink anchor) of
          Inl err \<Rightarrow> (Some (Wrap (''parse hash link ['' @ Hashlink anchor @ '']'') err), [])
        | Inr refURL \<Rightarrow>
        case url_Parse obs (AttributedTo anchor) of
          Inl err \<Rightarrow> (Some (Wrap (''parse origin ['' @ AttributedTo anchor @ '']'') err), [])
        | Inr attributedTo \<Rightarrow>
        case (if LocalHashlink anchor \<noteq> ''''
              then (case url_Parse obs (LocalHashlink anchor) of
                      Inl e \<Rightarrow>
                        Inl (Wrap (''parse local hashlink ['' @ LocalHashlink anchor @ '']'') e)
                    | Inr u \<Rightarrow> Inr (Some u))
              else Inr None) of
          Inl err \<Rightarrow> (Some err, [])
        | Inr result \<Rightarrow>
        case doPostLikeActivity obs attributedTo refURL result of
          (Some err, posted) \<Rightarrow> (Some (Wrap ''post like'' err), posted)
        | (None, posted) \<Rightarrow>
        case resolveActorFromHashlink obs (url_String obs refURL) of
          Inl err \<Rightarrow>
            (Some (Wrap (''resolve origin actor for hashlink ['' @ url_String obs refURL @ '']'') err),
             posted)
        | Inr originActor \<Rightarrow>
            if AttributedTo anchor = url_String obs originActor then (None, posted)
            else
              case doPostLikeActivity obs originActor refURL result of
                (Some err, posted') \<Rightarrow>
                  (Some (Wrap (''post 'Like' activity to outbox for hashlink [''
                                 @ url_String obs refURL @ '']'') err),
                   posted @ posted')
              | (None, posted') \<Rightarrow> (None, posted @ posted'))"

definition getKeys :: "(string \<times> string) list \<Rightarrow> string list" where
  "getKeys m = map fst m"

definition processAnchor ::
  "('vc, 'pc, 'pv, 'u) Observer \<Rightarrow> AnchorInfo \<Rightarrow> 'vc \<Rightarrow> string list
     \<Rightarrow> error option \<times> ('pv, 'u) effect list" where
  "processAnchor obs anchor info suffixes =
     (case GetAnchorSubject obs info of
        Inl err \<Rightarrow>
          (Some (Wrap (''failed to extract anchor payload from anchor['' @ Hashlink anchor @ '']'')
                   err), [])
      | Inr anchorPayload \<Rightarrow>
     case ForNamespace obs (Namespace anchorPayload) of
        Inl err \<Rightarrow>
          (Some (Wrap (''failed to get protocol client for namespace [''
                         @ Namespace anchorPayload @ '']'') err), [])
      | Inr pc \<Rightarrow>
     case pc_Get obs pc (Version anchorPayload) of
        Inl err \<Rightarrow> (Some (Wrap ''failed to get protocol version for transaction time'' err), [])
      | Inr v \<Rightarrow>
     case GetResourceHashFromHashLink obs (Hashlink anchor) of
        Inl err \<Rightarrow>
          (Some (Wrap (''failed to get canonical ID from hl['' @ Hashlink anchor @ '']'') err), [])
      | Inr canonicalID \<Rightarrow>
     (let equivalentRefs =
            (if discoveryDomain obs \<noteq> ''''
             then [Hashlink anchor, ''https:'' @ discoveryDomain obs @ '':'' @ canonicalID]
             else [Hashlink anchor]);
          sidetreeTxn =
            \<lparr>TransactionTime = Issued_Unix obs info,
             AnchorString =
               GetAnchorString obs (OperationCount anchorPayload) (CoreIndex anchorPayload),
             TxnNamespace = Namespace anchorPayload,
             ProtocolGenesisTime = Version anchorPayload,
             CanonicalReference = canonicalID,
             EquivalentReferences = equivalentRefs\<rparr>
      in case Process obs v sidetreeTxn suffixes of
           Some err \<Rightarrow>
             (Some (Wrap (''failed to processAnchors core index['' @ CoreIndex anchorPayload
                            @ '']'') err),
              [Processed v sidetreeTxn suffixes])
         | None \<Rightarrow>
        (let acSuffixes = getKeys (PreviousAnchors anchorPayload)
         in case DidAnchors_PutBulk obs acSuffixes (Hashlink anchor) of
              Some err \<Rightarrow>
                (Some (Wrap (''failed updating did anchor references for anchor credential[''
                               @ Hashlink anchor @ '']'') err),
                 [Processed v sidetreeTxn suffixes, IndexUpdated acSuffixes (Hashlink anchor)])
            | None \<Rightarrow>
                (case postLikeActivity obs anchor of
                   (likeErr, posted) \<Rightarrow>
                     (None,
                      [Processed v sidetreeTxn suffixes, IndexUpdated acSuffixes (Hashlink anchor)]
                      @ posted)))))"

definition handleAnchor ::
  "('vc, 'pc, 'pv, 'u) Observer \<Rightarrow> AnchorInfo \<Rightarrow> error option \<times> ('pv, 'u) effect list" where
  "handleAnchor obs anchor =
     (case AnchorGraph_Read obs (Hashlink anchor) of
        Inl err \<Rightarrow> (Some err, [])
      | Inr anchorInfo \<Rightarrow>
          (case processAnchor obs anchor anchorInfo [] of
             (Some err, effects) \<Rightarrow> (Some err, effects)
           | (None, effects) \<Rightarrow> (None, effects)))"

text \<open>
  Modelled from the spec: the subscriber that acknowledges the message is not part of the
  sources at hand. Sections 4.12 and 4.14 of the specification: a handler that returns a
  transient error has its message negatively acknowledged and redelivered; after any other
  outcome the message is positively acknowledged.
\<close>

datatype acknowledgement = Ack | Nack

definition acknowledge :: "error option \<Rightarrow> acknowledgement" where
  "acknowledge result =
     (case result of None \<Rightarrow> Ack | Some err \<Rightarrow> if IsTransient err then Nack else Ack)"

text \<open>
  The transaction handed to the transaction processor, and the statement that
  \<^verbatim>\<open>handleAnchor\<close> returns an error with the tag of a given error, which decides the
  acknowledgement.
\<close>

definition sidetreeTxnOf ::
  "('vc, 'pc, 'pv, 'u) Observer \<Rightarrow> AnchorInfo \<Rightarrow> 'vc \<Rightarrow> AnchorPayload \<Rightarrow> string \<Rightarrow> SidetreeTxn" where
  "sidetreeTxnOf obs anchor info p canonicalID =
     \<lparr>TransactionTime = Issued_Unix obs info,
      AnchorString = GetAnchorString obs (OperationCount p) (CoreIndex p),
      TxnNamespace = Namespace p,
      ProtocolGenesisTime = Version p,
      CanonicalReference = canonicalID,
      EquivalentReferences =
        (if discoveryDomain obs \<noteq> ''''
         then [Hashlink anchor, ''https:'' @ discoveryDomain obs @ '':'' @ canonicalID]
         else [Hashlink anchor])\<rparr>"

definition returnsTagged :: "('vc, 'pc, 'pv, 'u) Observer \<Rightarrow> AnchorInfo \<Rightarrow> error \<Rightarrow> bool" where
  "returnsTagged obs anchor e \<longleftrightarrow>
     (\<exists>e'. fst (handleAnchor obs anchor) = Some e'
           \<and> IsTransient e' = IsTransient e
           \<and> acknowledge (fst (handleAnchor obs anchor)) = (if IsTransient e then Nack else Ack))"

text \<open>
  A sample observer for concrete instances: every collaborator succeeds, URLs are their own
  strings, the author of every anchor credential is \<^verbatim>\<open>https://orb.domain1.com\<close>, and the
  outcome of posting to the outbox is a parameter.
\<close>

definition sampleObserver ::
  "(string LikeActivity \<Rightarrow> error option) \<Rightarrow> (string, unit, unit, string) Observer" where
  "sampleObserver post =
     \<lparr>discoveryDomain = '''',
      AnchorGraph_Read = (\<lambda>hl. Inr ''vc''),
      GetAnchorSubject = (\<lambda>vc. Inr \<lparr>Namespace = ''did:orb'', Version = 0, OperationCount = 1,
                                     CoreIndex = ''hl:uEiCoreIndex'',
                                     PreviousAnchors = [(''EiA'', '''')]\<rparr>),
      Issued_Unix = (\<lambda>vc. 0),
      ForNamespace = (\<lambda>ns. Inr ()),
      pc_Get = (\<lambda>pc v. Inr ()),
      GetAnchorString = (\<lambda>n c. c),
      GetResourceHashFromHashLink = (\<lambda>hl. Inr (drop 3 hl)),
      Process = (\<lambda>v txn suffixes. None),
      DidAnchors_PutBulk = (\<lambda>suffixes hl. None),
      Outbox_Post = post,
      url_Parse = Inr,
      url_String = (\<lambda>u. u),
      CASResolver_Resolve = (\<lambda>hl. Inr ''vc''),
      ParseCredential = Inr,
      subject_attributedTo = (\<lambda>vc. Some ''https://orb.domain1.com''),
      ResolveHostMetaLink = (\<lambda>a. Inr (a @ ''/services/orb''))\<rparr>"

definition sampleAnchor :: "string \<Rightarrow> AnchorInfo" where
  "sampleAnchor attributedTo =
     \<lparr>Hashlink = ''hl:uEiAnchor'', LocalHashlink = ''hl:uEiLocal'', AttributedTo = attributedTo\<rparr>"

definition failingOutbox :: "string LikeActivity \<Rightarrow> error option" where
  "failingOutbox like = Some (NewTransient (New ''outbox unavailable''))"

definition workingOutbox :: "string LikeActivity \<Rightarrow> error option" where
  "workingOutbox like = None"

definition failingProcessor :: "unit \<Rightarrow> SidetreeTxn \<Rightarrow> string list \<Rightarrow> error option" where
  "failingProcessor v txn suffixes = Some (NewTransient (New ''operation store unavailable''))"


section \<open>IPFS CAS client\<close>

text \<open>
  Byte slices are strings. The text of an error is what \<^verbatim>\<open>err.Error()\<close> returns;
  \<open>Contains\<close> is \<^verbatim>\<open>strings.Contains\<close> and \<open>HasPrefix\<close> is \<^verbatim>\<open>strings.HasPrefix\<close>.
\<close>

definition sentinelText :: "sentinel \<Rightarrow> string" where
  "sentinelText s =
     (case s of
        StorageErrDataNotFound \<Rightarrow> ''data not found''
      | StorageErrDuplicateKey \<Rightarrow> ''duplicate key''
      | DidAnchorErrDataNotFound \<Rightarrow> ''data not found''
      | ErrContentNotFound \<Rightarrow> ''content not found'')"

fun Error :: "error \<Rightarrow> string" where
  "Error (Sentinel s) = sentinelText s"
| "Error (New m) = m"
| "Error (Wrap m e) = m @ '': '' @ Error e"
| "Error (NewTransient e) = Error e"

definition HasPrefix :: "string \<Rightarrow> string \<Rightarrow> bool" where
  "HasPrefix s p \<longleftrightarrow> take (length p) s = p"

fun Contains :: "string \<Rightarrow> string \<Rightarrow> bool" where
  "Contains [] sub = (sub = [])"
| "Contains (c # s) sub = (HasPrefix (c # s) sub \<or> Contains s sub)"

text \<open>
  A CID format option either is \<^verbatim>\<open>nil\<close> or sets the CID version. The IPFS node is an
  external service reached through \<^verbatim>\<open>Add\<close> (with or without the option \<^verbatim>\<open>CidVersion(1)\<close>) and
  \<^verbatim>\<open>Cat\<close>; reading all of the stream that \<^verbatim>\<open>Cat\<close> returns may fail as well. The packages
  \<^verbatim>\<open>multihash\<close> and \<^verbatim>\<open>hashlink\<close> are not part of the sources at hand: the multihash of a
  content, the codec of the links of a hashlink and the conversions of a multihash to a CID
  are parameters of the client.
\<close>

datatype CIDFormatOption = NilOption | WithCIDVersion int

datatype cat_result = CatFails error | ReadAllFails error | Content string

record 'n ipfsClient =
  ipfs_Add :: "'n \<Rightarrow> string \<Rightarrow> bool \<Rightarrow> (error + string) \<times> 'n"
  ipfs_Cat :: "'n \<Rightarrow> string \<Rightarrow> cat_result"

record codec =
  multihashOf :: "string \<Rightarrow> string"
  encodeLinks :: "string list \<Rightarrow> error + string"
  decodeLinks :: "string \<Rightarrow> error + string list"
  IsValidCID :: "string \<Rightarrow> bool"
  ToV0CID :: "string \<Rightarrow> error + string"
  ToV1CID :: "string \<Rightarrow> error + string"

record 'n Client =
  ipfs :: 'n
  opts :: "CIDFormatOption list"
  cache :: "string \<rightharpoonup> string"

text \<open>
  Modelled from the spec: the package \<^verbatim>\<open>hashlink\<close> is not part of the sources at hand.
  Sections 3 and 6 of the specification: a hashlink is \<^verbatim>\<open>hl:\<close>, the base-encoded multihash
  of the content and, when there are links, a colon and the encoded metadata that lists
  them. Parsing takes the part between the prefix and the next colon as the resource hash
  and decodes the metadata, if any.
\<close>

definition HLPrefix :: string where
  "HLPrefix = ''hl:''"

definition CreateHashLink :: "codec \<Rightarrow> string \<Rightarrow> string list \<Rightarrow> error + string" where
  "CreateHashLink cd content links =
     (if links = [] then Inr (HLPrefix @ multihashOf cd content)
      else case encodeLinks cd links of
             Inl err \<Rightarrow> Inl err
           | Inr metadata \<Rightarrow> Inr (HLPrefix @ multihashOf cd content @ '':'' @ metadata))"

definition ParseHashLink :: "codec \<Rightarrow> string \<Rightarrow> error + string" where
  "ParseHashLink cd hashLink =
     (if \<not> HasPrefix hashLink HLPrefix
      then Inl (New (''hashlink ['' @ hashLink @ ''] must start with 'hl:' prefix''))
      else
        (let body = drop (length HLPrefix) hashLink;
             resourceHash = takeWhile (\<lambda>c. c \<noteq> CHR '':'') body;
             rest = dropWhile (\<lambda>c. c \<noteq> CHR '':'') body
         in if rest = [] then Inr resourceHash
            else case decodeLinks cd (drop 1 rest) of
                   Inl err \<Rightarrow> Inl err
                 | Inr links \<Rightarrow> Inr resourceHash))"

fun applyOptions :: "CIDFormatOption list \<Rightarrow> int \<Rightarrow> int" where
  "applyOptions [] v = v"
| "applyOptions (NilOption # rest) v = applyOptions rest v"
| "applyOptions (WithCIDVersion n # rest) v = applyOptions rest n"

definition getOptions :: "CIDFormatOption list \<Rightarrow> error + int" where
  "getOptions os =
     (let CIDVersion = applyOptions os 1
      in if CIDVersion \<noteq> 0 \<and> CIDVersion \<noteq> 1
         then Inl (New (itoa CIDVersion
                        @ '' is not a supported CID version. It must be either 0 or 1''))
         else Inr CIDVersion)"

definition WriteWithCIDFormat ::
  "'n ipfsClient \<Rightarrow> 'n Client \<Rightarrow> string \<Rightarrow> CIDFormatOption list \<Rightarrow> (error + string) \<times> 'n Client" where
  "WriteWithCIDFormat node m content os =
     (if length content = 0 then (Inl (New ''empty content''), m)
      else case getOptions os of
             Inl err \<Rightarrow> (Inl err, m)
           | Inr CIDVersion \<Rightarrow>
               (case ipfs_Add node (ipfs m) content (CIDVersion = 1) of
                  (Inl err, n') \<Rightarrow>
                    if Contains (Error err) ''command not found''
                    then (Inl (Wrap ''(Does this IPFS node support writes?)'' err), m\<lparr>ipfs := n'\<rparr>)
                    else (Inl (NewTransient err), m\<lparr>ipfs := n'\<rparr>)
                | (Inr cid, n') \<Rightarrow> (Inr cid, m\<lparr>ipfs := n'\<rparr>)))"

definition Write ::
  "codec \<Rightarrow> 'n ipfsClient \<Rightarrow> 'n Client \<Rightarrow> string \<Rightarrow> (error + string) \<times> 'n Client" where
  "Write cd node m content =
     (case WriteWithCIDFormat node m content (opts m) of
        (Inl err, m') \<Rightarrow> (Inl err, m')
      | (Inr cid, m') \<Rightarrow>
          (let links = [''ipfs://'' @ cid]
           in case CreateHashLink cd content links of
                Inl err \<Rightarrow> (Inl (Wrap ''failed to create hashlink for ipfs'' err), m')
              | Inr hl \<Rightarrow> (Inr hl, m')))"

definition get :: "'n ipfsClient \<Rightarrow> 'n Client \<Rightarrow> string \<Rightarrow> error + string" where
  "get node m cid =
     (case ipfs_Cat node (ipfs m) cid of
        CatFails err \<Rightarrow>
          if Contains (Error err) ''context deadline exceeded''
          then Inl (Wrap (Error err) (Sentinel ErrContentNotFound))
          else Inl (NewTransient (Wrap (''cat IPFS of CID ['' @ cid @ '']'') err))
      | ReadAllFails err \<Rightarrow> Inl (Wrap ''read all from IPFS mockReader'' err)
      | Content content \<Rightarrow>
          if content = ''null'' then Inl (NewTransient (Sentinel ErrContentNotFound))
          else Inr content)"

definition getCIDFromHash :: "codec \<Rightarrow> 'n Client \<Rightarrow> string \<Rightarrow> error + string" where
  "getCIDFromHash cd m hash =
     (case getOptions (opts m) of
        Inl err \<Rightarrow> Inl err
      | Inr CIDVersion \<Rightarrow>
          if CIDVersion = 0
          then (case ToV0CID cd hash of
                  Inl err \<Rightarrow>
                    Inl (Wrap (''value['' @ hash @ ''] cannot be converted to V0 CID'') err)
                | Inr cid \<Rightarrow> Inr cid)
          else if CIDVersion = 1
          then (case ToV1CID cd hash of
                  Inl err \<Rightarrow>
                    Inl (Wrap (''value['' @ hash @ ''] cannot be converted to V1 CID'') err)
                | Inr cid \<Rightarrow> Inr cid)
          else Inl (New (''cid version['' @ itoa CIDVersion @ ''] not supported'')))"

definition getCID :: "codec \<Rightarrow> 'n Client \<Rightarrow> string \<Rightarrow> error + string" where
  "getCID cd m cidOrHash =
     (case (if HasPrefix cidOrHash HLPrefix
            then (case ParseHashLink cd cidOrHash of
                    Inl err \<Rightarrow> Inl (Wrap ''failed to parse hash link in ipfs client'' err)
                  | Inr resourceHash \<Rightarrow> Inr resourceHash)
            else Inr cidOrHash) of
        Inl err \<Rightarrow> Inl err
      | Inr cid \<Rightarrow>
          if \<not> IsValidCID cd cid
          then (case getCIDFromHash cd m cid of
                  Inl err \<Rightarrow> Inl (Wrap ''failed to get cid in ipfs reader'' err)
                | Inr cid' \<Rightarrow> Inr cid')
          else Inr cid)"

text \<open>
  The cache answers from its entries and otherwise loads the content with \<open>get\<close>, keeping
  what was loaded.
\<close>

definition cache_Get :: "'n ipfsClient \<Rightarrow> 'n Client \<Rightarrow> string \<Rightarrow> (error + string) \<times> 'n Client" where
  "cache_Get node m key =
     (case cache m key of
        Some content \<Rightarrow> (Inr content, m)
      | None \<Rightarrow>
          (case get node m key of
             Inl err \<Rightarrow> (Inl err, m)
           | Inr content \<Rightarrow> (Inr content, m\<lparr>cache := (cache m)(key \<mapsto> content)\<rparr>)))"

definition Read :: "codec \<Rightarrow> 'n ipfsClient \<Rightarrow> 'n Client \<Rightarrow> string \<Rightarrow> (error + string) \<times> 'n Client" where
  "Read cd node m cidOrHash =
     (case getCID cd m cidOrHash of
        Inl err \<Rightarrow>
          (Inl (Wrap (''value['' @ cidOrHash
                        @ ''] passed to ipfs reader is not CID and cannot be converted to CID'') err),
           m)
      | Inr cid \<Rightarrow> cache_Get node m cid)"

text \<open>
  An IPFS node that returns what was added: its state maps a CID to the content stored
  under it, and the CID it assigns to a content for a CID version is a parameter.
\<close>

definition storeNode :: "(bool \<Rightarrow> string \<Rightarrow> string) \<Rightarrow> (string \<rightharpoonup> string) ipfsClient" where
  "storeNode cidOf =
     \<lparr>ipfs_Add = (\<lambda>n content v1. (Inr (cidOf v1 content), n(cidOf v1 content \<mapsto> content))),
      ipfs_Cat = (\<lambda>n cid. case n cid of
                             None \<Rightarrow> CatFails (New ''context deadline exceeded'')
                           | Some content \<Rightarrow> Content content)\<rparr>"

text \<open>The cache holds only what the node stores.\<close>

definition cacheConsistent :: "(string \<rightharpoonup> string) Client \<Rightarrow> bool" where
  "cacheConsistent m \<longleftrightarrow> (\<forall>k v. cache m k = Some v \<longrightarrow> ipfs m k = Some v)"

text \<open>
  A sample codec and node for concrete instances: the multihash of a content is the content
  behind a marker, a CID is the multihash behind a marker of its version, and the links are
  joined by commas.
\<close>

definition sampleCodec :: codec where
  "sampleCodec =
     \<lparr>multihashOf = (\<lambda>content. ''uEi'' @ content),
      encodeLinks = (\<lambda>links. Inr (''uoQ-'' @ concat (map (\<lambda>l. l @ '','') links))),
      decodeLinks = (\<lambda>metadata. Inr [metadata]),
      IsValidCID = (\<lambda>s. HasPrefix s ''bafk'' \<or> HasPrefix s ''Qm''),
      ToV0CID = (\<lambda>h. Inr (''Qm'' @ h)),
      ToV1CID = (\<lambda>h. Inr (''bafk'' @ h))\<rparr>"

definition sampleCidOf :: "bool \<Rightarrow> string \<Rightarrow> string" where
  "sampleCidOf v1 content = (if v1 then ''bafk'' else ''Qm'') @ ''uEi'' @ content"

definition newClient :: "CIDFormatOption list \<Rightarrow> (string \<rightharpoonup> string) Client" where
  "newClient os = \<lparr>ipfs = Map.empty, opts = os, cache = Map.empty\<rparr>"

section \<open>Anchor resolution and the walk over the anchor graph\<close>

text \<open>
  Modelled from the spec: \<^verbatim>\<open>getUnprocessedParentAnchors\<close> is not part of the sources at hand
  (only its test is). Section 4.13 of the specification: the \<^verbatim>\<open>up\<close> references of the anchor
  are taken in order; a reference must be a hashlink (a violation is a permanent error); a
  reference found in the processed-anchor index is skipped; a reference that is already
  among the collected ancestors is skipped (deduplication by hashlink); any other reference
  is resolved (a failure is transient), its own \<^verbatim>\<open>up\<close> references are walked first, and it is
  added after them, so that the ancestors come out deepest first. A reference back to an
  anchor that is being expanded is a cycle, and the depth of the recursion is bounded; both
  are permanent errors.

  The collaborators are the processed-anchor index, the resolution of an anchor to the \<^verbatim>\<open>up\<close>
  references of its linkset, and the bound on the depth. \<open>walk\<close> takes the remaining depth,
  the anchors being expanded, the ancestors collected so far and the references to visit.
\<close>

record walker =
  isProcessed :: "string \<Rightarrow> error + bool"
  resolveUp :: "string \<Rightarrow> error + string list"
  maxDepth :: nat

fun walk :: "walker \<Rightarrow> nat \<Rightarrow> string list \<Rightarrow> string list \<Rightarrow> string list \<Rightarrow> error + string list" where
  "walk w d path acc [] = Inr acc"
| "walk w d path acc (r # rs) =
     (if \<not> HasPrefix r HLPrefix
      then Inl (New (''hashlink ['' @ r @ ''] must start with 'hl:' prefix''))
      else
        case isProcessed w r of
          Inl err \<Rightarrow> Inl (Wrap (''is anchor processed ['' @ r @ '']'') err)
        | Inr True \<Rightarrow> walk w d path acc rs
        | Inr False \<Rightarrow>
            if r \<in> set acc then walk w d path acc rs
            else if r \<in> set path then Inl (New (''cycle in anchor graph at ['' @ r @ '']''))
            else
              (case d of
                 0 \<Rightarrow> Inl (New ''maximum depth of anchor graph exceeded'')
               | Suc d' \<Rightarrow>
                   (case resolveUp w r of
                      Inl err \<Rightarrow> Inl (NewTransient (Wrap (''resolve anchor ['' @ r @ '']'') err))
                    | Inr ups \<Rightarrow>
                        (case walk w d' (r # path) acc ups of
                           Inl err \<Rightarrow> Inl err
                         | Inr acc' \<Rightarrow> walk w d path (acc' @ [r]) rs))))"

definition getUnprocessedParentAnchors :: "walker \<Rightarrow> string \<Rightarrow> string list \<Rightarrow> error + string list" where
  "getUnprocessedParentAnchors w hl ups = walk w (maxDepth w) [hl] [] ups"

text \<open>
  The unprocessed parents of an anchor, the unprocessed ancestors reachable from a list of
  references through unprocessed anchors only, and the order in which every ancestor comes
  after all of its own unprocessed parents.
\<close>

definition unprocessed :: "walker \<Rightarrow> string \<Rightarrow> bool" where
  "unprocessed w r \<longleftrightarrow> isProcessed w r = Inr False"

definition unprocessedParents :: "walker \<Rightarrow> string \<Rightarrow> string list" where
  "unprocessedParents w r =
     (case resolveUp w r of Inl err \<Rightarrow> [] | Inr ups \<Rightarrow> filter (unprocessed w) ups)"

inductive ancestor :: "walker \<Rightarrow> string list \<Rightarrow> string \<Rightarrow> bool" for w refs where
  parent: "r \<in> set refs \<Longrightarrow> unprocessed w r \<Longrightarrow> ancestor w refs r"
| older: "ancestor w refs y \<Longrightarrow> u \<in> set (unprocessedParents w y) \<Longrightarrow> ancestor w refs u"

definition parentsFirst :: "walker \<Rightarrow> string list \<Rightarrow> bool" where
  "parentsFirst w xs \<longleftrightarrow>
     (\<forall>i < length xs. \<forall>u \<in> set (unprocessedParents w (xs ! i)). u \<in> set (take i xs))"

text \<open>
  The invariant of the walk on the collected ancestors, and the conditions under which the
  walk meets no error: every reference it looks at is a hashlink that the processed-anchor
  index can answer for, every unprocessed ancestor resolves, lies outside the anchors that
  are being expanded and has a rank below the bound on the depth, and the rank decreases
  from an anchor to its unprocessed parents (so the graph of unprocessed ancestors has no
  cycle).
\<close>

definition walkInv :: "walker \<Rightarrow> string list \<Rightarrow> bool" where
  "walkInv w acc \<longleftrightarrow> distinct acc \<and> parentsFirst w acc \<and> (\<forall>x \<in> set acc. unprocessed w x)"

definition okRefs :: "walker \<Rightarrow> string list \<Rightarrow> bool" where
  "okRefs w refs \<longleftrightarrow> (\<forall>r \<in> set refs. HasPrefix r HLPrefix \<and> (\<exists>b. isProcessed w r = Inr b))"

definition walkable :: "walker \<Rightarrow> (string \<Rightarrow> nat) \<Rightarrow> nat \<Rightarrow> string list \<Rightarrow> string list \<Rightarrow> bool" where
  "walkable w rank d path refs \<longleftrightarrow>
     okRefs w refs
     \<and> (\<forall>x. ancestor w refs x \<longrightarrow>
            (\<exists>ups. resolveUp w x = Inr ups \<and> okRefs w ups)
          \<and> rank x < d
          \<and> (\<forall>u \<in> set (unprocessedParents w x). rank u < rank x)
          \<and> x \<notin> set path)"

text \<open>
  A sample graph for concrete instances, after the test of the walk: nothing is processed
  yet, the parent of the anchor refers to the grandparent, and the grandparent has no
  parents.
\<close>

definition sampleWalker :: walker where
  "sampleWalker =
     \<lparr>isProcessed = (\<lambda>r. Inr False),
      resolveUp = (\<lambda>r. if r = ''hl:uEiParent'' then Inr [''hl:uEiGrandparent'']
                         else if r = ''hl:uEiGrandparent'' then Inr []
                         else Inl (Sentinel ErrContentNotFound)),
      maxDepth = 10\<rparr>"

definition sampleRank :: "string \<Rightarrow> nat" where
  "sampleRank r = (if r = ''hl:uEiParent'' then 1 else 0)"

section \<open>Paging: arithmetic facts\<close>

lemma wrap64_id: "is_int64 x \<Longrightarrow> wrap64 x = x"
  by (simp add: wrap64_def is_int64_def)

lemma sdiv_pos: "0 \<le> n \<Longrightarrow> 0 < p \<Longrightarrow> n sdiv p = n div (p::int)"
  by (simp add: signed_divide_int_def sgn_if)

lemma smod_pos: "0 \<le> n \<Longrightarrow> 0 < p \<Longrightarrow> n smod p = n mod (p::int)"
  by (simp add: signed_modulo_int_def sgn_if)

lemma div_le_self_int: "0 \<le> n \<Longrightarrow> 0 < p \<Longrightarrow> n div p \<le> (n::int)"
  using zdiv_mono2 [of n 1 p] by simp

lemma ceiling_div_cases:
  assumes "0 < p"
  shows "\<lceil>real_of_int n / real_of_int p\<rceil> = (if n mod p > 0 then n div p + 1 else n div p)"
proof -
  have c: "\<lceil>real_of_int n / real_of_int p\<rceil> = - (- n div p)"
    by (simp add: ceiling_divide_eq_div)
  show ?thesis
  proof (cases "n mod p = 0")
    case True
    then have "p dvd n" by auto
    then have "- n div p = - (n div p)" by (simp add: dvd_neg_div)
    with True c show ?thesis by simp
  next
    case False
    then have "\<not> p dvd n" by (simp add: mod_eq_0_iff_dvd)
    then have "- n div p = - (n div p) - 1"
      using assms by (simp add: zdiv_zminus1_eq_if False)
    moreover have "n mod p > 0" using False assms
      by (simp add: order_less_le)
    ultimately show ?thesis using c by simp
  qed
qed

lemma pageCount_eq:
  assumes "0 < N" "N < 2 ^ 63" "0 < P" "P < 2 ^ 63"
  shows "pageCount N P = Inr (\<lceil>real_of_int N / real_of_int P\<rceil> - 1)"
proof -
  have q: "0 \<le> N div P" "N div P \<le> N"
    using assms by (simp_all add: pos_imp_zdiv_nonneg_iff div_le_self_int)
  then have r1: "is_int64 (N div P)" and r2: "is_int64 (N div P - 1)"
    using assms by (simp_all add: is_int64_def)
  have m: "go_mod N P = Inr (N mod P)"
    using assms by (simp add: go_mod_def smod_pos)
  have d: "go_div N P = Inr (N div P)"
    using assms r1 by (simp add: go_div_def sdiv_pos wrap64_id)
  have c: "\<lceil>real_of_int N / real_of_int P\<rceil> = (if N mod P > 0 then N div P + 1 else N div P)"
    using assms by (simp only: ceiling_div_cases)
  show ?thesis
    unfolding pageCount_def m d c using r2 by (simp add: wrap64_id)
qed

section \<open>Paging: first and last page of a collection\<close>

text \<open>
  C3. For a collection of \<open>N > 0\<close> items and a page size \<open>P > 0\<close> (both Go ints), ascending
  order has first page 0 and last page \<open>\<lceil>N/P\<rceil> - 1\<close>; descending order has first page
  \<open>\<lceil>N/P\<rceil> - 1\<close> and last page 0.
\<close>

theorem first_last_page_num:
  assumes "0 < N" "N < 2 ^ 63" "0 < P" "P < 2 ^ 63"
  shows "getFirstPageNum N P SortAscending = Inr 0
       \<and> getLastPageNum N P SortAscending = Inr (\<lceil>real_of_int N / real_of_int P\<rceil> - 1)
       \<and> getFirstPageNum N P SortDescending = Inr (\<lceil>real_of_int N / real_of_int P\<rceil> - 1)
       \<and> getLastPageNum N P SortDescending = Inr 0"
  using pageCount_eq [OF assms] by (simp add: getFirstPageNum_def getLastPageNum_def)

theorem first_last_page_num_witness:
  "getFirstPageNum 19 4 SortAscending = Inr 0
   \<and> getLastPageNum 19 4 SortAscending = Inr 4
   \<and> getFirstPageNum 19 4 SortDescending = Inr 4
   \<and> getLastPageNum 19 4 SortDescending = Inr 0"
proof -
  have c: "\<lceil>real_of_int 19 / real_of_int 4\<rceil> = 5"
    by (simp add: ceiling_eq_iff)
  have h: "(0::int) < 19" "(19::int) < 2 ^ 63" "(0::int) < 4" "(4::int) < 2 ^ 63"
    by simp_all
  show ?thesis
    using first_last_page_num [OF h] unfolding c by simp
qed

section \<open>Paging: a page number beyond the last page\<close>

lemma last_page_nonneg:
  assumes "0 < N" "0 < P"
  shows "0 \<le> \<lceil>real_of_int N / real_of_int P\<rceil> - 1"
proof -
  have "0 < real_of_int N / real_of_int P" using assms by simp
  then have "0 < \<lceil>real_of_int N / real_of_int P\<rceil>" by (simp only: zero_less_ceiling)
  then show ?thesis by simp
qed

lemma pages_cover_items:
  assumes "0 < P"
  shows "N \<le> \<lceil>real_of_int N / real_of_int P\<rceil> * P"
proof -
  have d: "P * (N div P) + N mod P = N" by simp
  have m: "0 \<le> N mod P" "N mod P < P" using assms by simp_all
  show ?thesis
  proof (cases "0 < N mod P")
    case True
    then have "\<lceil>real_of_int N / real_of_int P\<rceil> * P = P * (N div P) + P"
      using assms by (simp add: ceiling_div_cases algebra_simps)
    then show ?thesis using d m by linarith
  next
    case False
    then have z: "N mod P = 0" using m by linarith
    from False have "\<lceil>real_of_int N / real_of_int P\<rceil> * P = P * (N div P)"
      using assms by (simp add: ceiling_div_cases algebra_simps)
    then show ?thesis using d z by linarith
  qed
qed

lemma getCurrentPrevNext_beyond_desc:
  assumes "pageCount N P = Inr L" "0 \<le> L" "L < pn"
  shows "getCurrentPrevNext N \<lparr>PageNumber = pn, PageSize = P, SortOrder = SortDescending\<rparr>
           = Inr (pn, - 1, L)"
  using assms
  by (simp add: getCurrentPrevNext_def getFirstPageNum_def getLastPageNum_def
      getPrevNextDescending_def)

lemma getCurrentPrevNext_beyond_asc:
  assumes "pageCount N P = Inr L" "0 \<le> L" "L < pn"
  shows "getCurrentPrevNext N \<lparr>PageNumber = pn, PageSize = P, SortOrder = SortAscending\<rparr>
           = Inr (pn, L, - 1)"
  using assms
  by (simp add: getCurrentPrevNext_def getFirstPageNum_def getLastPageNum_def
      getPrevNextAscending_def)

lemma getPageURL_Inr: "parseURL (getPageID iri n) = Inr u \<Longrightarrow> getPageURL parseURL iri n = Inr u"
  by (simp add: getPageURL_def)

lemma getPageURL_Inl:
  "parseURL (getPageID iri n) = Inl e \<Longrightarrow>
     getPageURL parseURL iri n = Inl (Wrap (''invalid 'page' URL ['' @ getPageID iri n @ '']'') e)"
  by (simp add: getPageURL_def)

lemma getIDPrevNextURL_desc:
  assumes "getCurrentPrevNext N qo = Inr (pn, - 1, L)" "0 \<le> L"
  shows "getIDPrevNextURL parseURL iri N qo =
           (case getPageURL parseURL iri L of
              Inl err \<Rightarrow> Returns (Inl err)
            | Inr lu \<Rightarrow>
                (case getPageURL parseURL iri pn of
                   Inl err \<Rightarrow> Returns (Inl err)
                 | Inr cu \<Rightarrow> Returns (Inr (cu, None, Some lu))))"
  using assms by (simp add: getIDPrevNextURL_def split: sum.splits)

lemma getIDPrevNextURL_asc:
  assumes "getCurrentPrevNext N qo = Inr (pn, L, - 1)" "0 \<le> L"
  shows "getIDPrevNextURL parseURL iri N qo =
           (case getPageURL parseURL iri L of
              Inl err \<Rightarrow> Returns (Inl err)
            | Inr lu \<Rightarrow>
                (case getPageURL parseURL iri pn of
                   Inl err \<Rightarrow> Returns (Inl err)
                 | Inr cu \<Rightarrow> Returns (Inr (cu, Some lu, None))))"
  using assms by (simp add: getIDPrevNextURL_def split: sum.splits)

lemma pageItems_beyond_desc:
  "firstPage < pn \<Longrightarrow>
     pageItems items \<lparr>PageNumber = pn, PageSize = P, SortOrder = SortDescending\<rparr> pn firstPage = []"
  by (simp add: pageItems_def)

lemma pageItems_beyond_asc:
  assumes "0 < P" "int (length items) \<le> pn * P"
  shows "pageItems items \<lparr>PageNumber = pn, PageSize = P, SortOrder = SortAscending\<rparr> pn 0 = []"
proof -
  have "length items \<le> nat (pn * P)" using assms(2) by linarith
  then show ?thesis by (simp add: pageItems_def)
qed

text \<open>
  C4 (as amended). For a collection of \<open>N > 0\<close> items with page size \<open>P > 0\<close> and a page number
  beyond the highest page \<open>\<lceil>N/P\<rceil> - 1\<close>, the response (the identifiers of the pages parsing as
  URLs) is an empty page with the unchanged number of all items; in descending order it has
  no \<^verbatim>\<open>prev\<close> link and its \<^verbatim>\<open>next\<close> link points to page \<open>\<lceil>N/P\<rceil> - 1\<close>; in ascending order it
  has no \<^verbatim>\<open>next\<close> link and its \<^verbatim>\<open>prev\<close> link points to page \<open>\<lceil>N/P\<rceil> - 1\<close>. When the identifier
  of page \<open>\<lceil>N/P\<rceil> - 1\<close> or, that one parsing, the identifier of the requested page does not
  parse as a URL, the error of \<^verbatim>\<open>getPageURL\<close> for it is returned instead, in either order. With
  19 items, page size 4, descending order and page number 30 the \<^verbatim>\<open>next\<close> link is page 4 and
  there is no \<^verbatim>\<open>prev\<close> link.
\<close>

theorem page_beyond_last:
  assumes "N = int (length items)" "0 < N" "N < 2 ^ 63" "0 < P" "P < 2 ^ 63"
    and "L = \<lceil>real_of_int N / real_of_int P\<rceil> - 1" "L < pn"
  shows "(parseURL (getPageID iri L) = Inr lu \<and> parseURL (getPageID iri pn) = Inr cu \<longrightarrow>
            getIDPrevNextURL parseURL iri N
                \<lparr>PageNumber = pn, PageSize = P, SortOrder = SortDescending\<rparr>
              = Returns (Inr (cu, None, Some lu))
          \<and> getIDPrevNextURL parseURL iri N
                \<lparr>PageNumber = pn, PageSize = P, SortOrder = SortAscending\<rparr>
              = Returns (Inr (cu, Some lu, None))
          \<and> getPage parseURL iri items
                \<lparr>PageNumber = pn, PageSize = P, SortOrder = SortDescending\<rparr>
              = Returns (Inr \<lparr>page_id = cu, page_orderedItems = [], page_totalItems = N,
                              page_prev = None, page_next = Some lu\<rparr>)
          \<and> getPage parseURL iri items
                \<lparr>PageNumber = pn, PageSize = P, SortOrder = SortAscending\<rparr>
              = Returns (Inr \<lparr>page_id = cu, page_orderedItems = [], page_totalItems = N,
                              page_prev = Some lu, page_next = None\<rparr>))
       \<and> (parseURL (getPageID iri L) = Inl e \<longrightarrow>
            getIDPrevNextURL parseURL iri N \<lparr>PageNumber = pn, PageSize = P, SortOrder = so\<rparr>
              = Returns (Inl (Wrap (''invalid 'page' URL ['' @ getPageID iri L @ '']'') e))
          \<and> getPage parseURL iri items \<lparr>PageNumber = pn, PageSize = P, SortOrder = so\<rparr>
              = Returns (Inl (Wrap (''invalid 'page' URL ['' @ getPageID iri L @ '']'') e)))
       \<and> (parseURL (getPageID iri L) = Inr lu \<and> parseURL (getPageID iri pn) = Inl e \<longrightarrow>
            getIDPrevNextURL parseURL iri N \<lparr>PageNumber = pn, PageSize = P, SortOrder = so\<rparr>
              = Returns (Inl (Wrap (''invalid 'page' URL ['' @ getPageID iri pn @ '']'') e))
          \<and> getPage parseURL iri items \<lparr>PageNumber = pn, PageSize = P, SortOrder = so\<rparr>
              = Returns (Inl (Wrap (''invalid 'page' URL ['' @ getPageID iri pn @ '']'') e)))"
proof -
  let ?desc = "\<lparr>PageNumber = pn, PageSize = P, SortOrder = SortDescending\<rparr>"
  let ?asc = "\<lparr>PageNumber = pn, PageSize = P, SortOrder = SortAscending\<rparr>"
  let ?so = "\<lparr>PageNumber = pn, PageSize = P, SortOrder = so\<rparr>"
  have L: "0 \<le> L" unfolding assms(6) using assms(2,4) by (rule last_page_nonneg)
  have pc: "pageCount N P = Inr L" unfolding assms(6) using assms(2-5) by (rule pageCount_eq)
  note cd = getCurrentPrevNext_beyond_desc [OF pc L assms(7)]
  note ca = getCurrentPrevNext_beyond_asc [OF pc L assms(7)]
  note ud = getIDPrevNextURL_desc [OF cd L, of parseURL iri]
  note ua = getIDPrevNextURL_asc [OF ca L, of parseURL iri]
  have fd: "getFirstPageNum N P SortDescending = Inr L"
    by (simp add: getFirstPageNum_def pc)
  have fa: "getFirstPageNum N P SortAscending = Inr 0"
    by (simp add: getFirstPageNum_def)
  have "N \<le> (L + 1) * P"
    unfolding assms(6) using pages_cover_items [OF assms(4), of N] by simp
  also have "\<dots> \<le> pn * P"
    using assms(4,7) by (intro mult_right_mono) simp_all
  finally have cover: "int (length items) \<le> pn * P" using assms(1) by simp
  note ia = pageItems_beyond_asc [OF assms(4) cover]
  note idd = pageItems_beyond_desc [OF assms(7), of items P]
  have ok: "parseURL (getPageID iri L) = Inr lu \<and> parseURL (getPageID iri pn) = Inr cu \<longrightarrow>
            getIDPrevNextURL parseURL iri N ?desc = Returns (Inr (cu, None, Some lu))
          \<and> getIDPrevNextURL parseURL iri N ?asc = Returns (Inr (cu, Some lu, None))
          \<and> getPage parseURL iri items ?desc
              = Returns (Inr \<lparr>page_id = cu, page_orderedItems = [], page_totalItems = N,
                              page_prev = None, page_next = Some lu\<rparr>)
          \<and> getPage parseURL iri items ?asc
              = Returns (Inr \<lparr>page_id = cu, page_orderedItems = [], page_totalItems = N,
                              page_prev = Some lu, page_next = None\<rparr>)"
  proof (intro impI, elim conjE)
    assume p: "parseURL (getPageID iri L) = Inr lu" "parseURL (getPageID iri pn) = Inr cu"
    have d: "getIDPrevNextURL parseURL iri N ?desc = Returns (Inr (cu, None, Some lu))"
      unfolding ud by (simp add: getPageURL_Inr p)
    have a: "getIDPrevNextURL parseURL iri N ?asc = Returns (Inr (cu, Some lu, None))"
      unfolding ua by (simp add: getPageURL_Inr p)
    have gd: "getPage parseURL iri items ?desc
              = Returns (Inr \<lparr>page_id = cu, page_orderedItems = [], page_totalItems = N,
                              page_prev = None, page_next = Some lu\<rparr>)"
      unfolding getPage_def Let_def assms(1) [symmetric]
      by (simp add: fd cd d idd)
    have ga: "getPage parseURL iri items ?asc
              = Returns (Inr \<lparr>page_id = cu, page_orderedItems = [], page_totalItems = N,
                              page_prev = Some lu, page_next = None\<rparr>)"
      unfolding getPage_def Let_def assms(1) [symmetric]
      by (simp add: fa ca a ia)
    from d a gd ga show "getIDPrevNextURL parseURL iri N ?desc = Returns (Inr (cu, None, Some lu))
          \<and> getIDPrevNextURL parseURL iri N ?asc = Returns (Inr (cu, Some lu, None))
          \<and> getPage parseURL iri items ?desc
              = Returns (Inr \<lparr>page_id = cu, page_orderedItems = [], page_totalItems = N,
                              page_prev = None, page_next = Some lu\<rparr>)
          \<and> getPage parseURL iri items ?asc
              = Returns (Inr \<lparr>page_id = cu, page_orderedItems = [], page_totalItems = N,
                              page_prev = Some lu, page_next = None\<rparr>)"
      by (intro conjI)
  qed
  have err: "getIDPrevNextURL parseURL iri N ?so = Returns (Inl x)
             \<and> getPage parseURL iri items ?so = Returns (Inl x)"
    if d: "getIDPrevNextURL parseURL iri N ?desc = Returns (Inl x)"
      and a: "getIDPrevNextURL parseURL iri N ?asc = Returns (Inl x)" for x
  proof (cases so)
    case SortAscending
    have "getPage parseURL iri items ?asc = Returns (Inl x)"
      unfolding getPage_def Let_def assms(1) [symmetric]
      by (simp add: fa ca a)
    with a show ?thesis unfolding SortAscending by simp
  next
    case SortDescending
    have "getPage parseURL iri items ?desc = Returns (Inl x)"
      unfolding getPage_def Let_def assms(1) [symmetric]
      by (simp add: fd cd d)
    with d show ?thesis unfolding SortDescending by simp
  qed
  have bad1: "parseURL (getPageID iri L) = Inl e \<longrightarrow>
            getIDPrevNextURL parseURL iri N ?so
              = Returns (Inl (Wrap (''invalid 'page' URL ['' @ getPageID iri L @ '']'') e))
          \<and> getPage parseURL iri items ?so
              = Returns (Inl (Wrap (''invalid 'page' URL ['' @ getPageID iri L @ '']'') e))"
  proof
    assume p: "parseURL (getPageID iri L) = Inl e"
    show "getIDPrevNextURL parseURL iri N ?so
              = Returns (Inl (Wrap (''invalid 'page' URL ['' @ getPageID iri L @ '']'') e))
          \<and> getPage parseURL iri items ?so
              = Returns (Inl (Wrap (''invalid 'page' URL ['' @ getPageID iri L @ '']'') e))"
      by (rule err; unfold ud ua) (simp_all add: getPageURL_Inl p)
  qed
  have bad2: "parseURL (getPageID iri L) = Inr lu \<and> parseURL (getPageID iri pn) = Inl e \<longrightarrow>
            getIDPrevNextURL parseURL iri N ?so
              = Returns (Inl (Wrap (''invalid 'page' URL ['' @ getPageID iri pn @ '']'') e))
          \<and> getPage parseURL iri items ?so
              = Returns (Inl (Wrap (''invalid 'page' URL ['' @ getPageID iri pn @ '']'') e))"
  proof (intro impI, elim conjE)
    assume p: "parseURL (getPageID iri L) = Inr lu" "parseURL (getPageID iri pn) = Inl e"
    show "getIDPrevNextURL parseURL iri N ?so
              = Returns (Inl (Wrap (''invalid 'page' URL ['' @ getPageID iri pn @ '']'') e))
          \<and> getPage parseURL iri items ?so
              = Returns (Inl (Wrap (''invalid 'page' URL ['' @ getPageID iri pn @ '']'') e))"
      by (rule err; unfold ud ua) (simp_all add: getPageURL_Inl getPageURL_Inr p)
  qed
  from ok bad1 bad2 show ?thesis by (intro conjI)
qed

lemma itoa_4: "itoa 4 = ''4''"
  by code_simp

lemma itoa_30: "itoa 30 = ''30''"
  by code_simp

theorem page_beyond_last_witness:
  "getPage Inr ''https://example1.com/services/orb/inbox'' [0 ..< 19]
     \<lparr>PageNumber = 30, PageSize = 4, SortOrder = SortDescending\<rparr>
   = Returns (Inr \<lparr>page_id = ''https://example1.com/services/orb/inbox?page=true&page-num=30'',
                   page_orderedItems = [], page_totalItems = 19, page_prev = None,
                   page_next = Some ''https://example1.com/services/orb/inbox?page=true&page-num=4''\<rparr>)
   \<and> getPage sampleParseURL
       '':inbox'' [0 ..< 19] \<lparr>PageNumber = 30, PageSize = 4, SortOrder = SortDescending\<rparr>
     = Returns (Inl (Wrap ''invalid 'page' URL [:inbox?page=true&page-num=4]''
                      (New ''missing protocol scheme'')))"
proof -
  let ?iri = "''https://example1.com/services/orb/inbox''"
  let ?parse = sampleParseURL
  have c: "\<lceil>real_of_int 19 / real_of_int 4\<rceil> = 5"
    by (simp add: ceiling_eq_iff)
  have h: "(19::int) = int (length [0 ..< 19])" "(0::int) < 19" "(19::int) < 2 ^ 63"
    "(0::int) < 4" "(4::int) < 2 ^ 63"
    "(4::int) = \<lceil>real_of_int 19 / real_of_int 4\<rceil> - 1" "(4::int) < 30"
    unfolding c by simp_all
  have p: "Inr (getPageID ?iri 4) = (Inr ''https://example1.com/services/orb/inbox?page=true&page-num=4'' :: error + string)"
    "Inr (getPageID ?iri 30) = (Inr ''https://example1.com/services/orb/inbox?page=true&page-num=30'' :: error + string)"
    by (simp_all add: getPageID_def itoa_4 itoa_30)
  have q: "getPageID '':inbox'' 4 = '':inbox?page=true&page-num=4''"
    by (simp add: getPageID_def itoa_4)
  have q': "?parse (getPageID '':inbox'' 4) = Inl (New ''missing protocol scheme'')"
    unfolding q by (simp add: sampleParseURL_def)
  from page_beyond_last [OF h, where parseURL = Inr and iri = ?iri
      and lu = "''https://example1.com/services/orb/inbox?page=true&page-num=4''"
      and cu = "''https://example1.com/services/orb/inbox?page=true&page-num=30''"] p
  have ok: "getPage Inr ?iri [0 ..< 19]
     \<lparr>PageNumber = 30, PageSize = 4, SortOrder = SortDescending\<rparr>
   = Returns (Inr \<lparr>page_id = ''https://example1.com/services/orb/inbox?page=true&page-num=30'',
                   page_orderedItems = [], page_totalItems = 19, page_prev = None,
                   page_next = Some ''https://example1.com/services/orb/inbox?page=true&page-num=4''\<rparr>)"
    by blast
  from page_beyond_last [OF h, where parseURL = ?parse and iri = "'':inbox''"
      and e = "New ''missing protocol scheme''" and so = SortDescending] q'
  have "getPage ?parse '':inbox'' [0 ..< 19]
          \<lparr>PageNumber = 30, PageSize = 4, SortOrder = SortDescending\<rparr>
     = Returns (Inl (Wrap (''invalid 'page' URL ['' @ getPageID '':inbox'' 4 @ '']'')
                      (New ''missing protocol scheme'')))"
    by blast
  then have bad: "getPage ?parse '':inbox'' [0 ..< 19]
          \<lparr>PageNumber = 30, PageSize = 4, SortOrder = SortDescending\<rparr>
     = Returns (Inl (Wrap ''invalid 'page' URL [:inbox?page=true&page-num=4]''
                      (New ''missing protocol scheme'')))"
    unfolding q by simp
  from ok bad show ?thesis by (rule conjI)
qed

text \<open>
  In ascending order the request for page 30 of 19 items, four to a page, carries a \<^verbatim>\<open>prev\<close>
  link to page 4 and no \<^verbatim>\<open>next\<close> link: \<open>no prev link, next link to the last page\<close> does
  not hold in every sort order.
\<close>

theorem page_beyond_last_ascending_counterexample:
  "getIDPrevNextURL Inr ''https://example1.com/services/orb/inbox'' 19
     \<lparr>PageNumber = 30, PageSize = 4, SortOrder = SortAscending\<rparr>
   = Returns (Inr (''https://example1.com/services/orb/inbox?page=true&page-num=30'',
                   Some ''https://example1.com/services/orb/inbox?page=true&page-num=4'', None))"
  by (simp add: getIDPrevNextURL_def getPageURL_def getCurrentPrevNext_def getFirstPageNum_def
      getLastPageNum_def pageCount_def go_mod_def go_div_def wrap64_def
      getPrevNextAscending_def getPageID_def itoa_4 itoa_30)

section \<open>Round-robin selection\<close>

lemma nextIndex_eq:
  "nextIndex r =
     (if sint (current_rr r + 1) > max_rr r then (0, r\<lparr>current_rr := 0\<rparr>)
      else (sint (current_rr r + 1), r\<lparr>current_rr := current_rr r + 1\<rparr>))"
  by (subst nextIndex.simps) (simp add: AddInt32_def CompareAndSwapInt32_def)

lemma sint_succ:
  fixes c :: "32 word"
  assumes "0 \<le> sint c" "sint c < 2 ^ 31 - 1"
  shows "sint (c + 1) = sint c + 1"
proof -
  have "sint (c + 1) = signed_take_bit (LENGTH(32) - 1) (sint c + sint (1 :: 32 word))"
    by (rule sint_word_ariths)
  also have "\<dots> = signed_take_bit 31 (sint c + 1)" by simp
  also have "\<dots> = sint c + 1"
    using assms by (intro signed_take_bit_int_eq_self) simp_all
  finally show ?thesis .
qed


lemma sint_of_nat_32:
  assumes "n < 2 ^ 31"
  shows "sint (of_nat n :: 32 word) = int n"
proof -
  have "sint (of_nat n :: 32 word) = signed_take_bit (LENGTH(32) - Suc 0) (int n)"
    using signed_of_nat [where ?'b = 32 and ?'a = int, of n] by simp
  also have "\<dots> = signed_take_bit 31 (int n)" by simp
  also have "\<dots> = int n"
    using assms by (intro signed_take_bit_int_eq_self) simp_all
  finally show ?thesis .
qed

lemma calls_max: "max_rr (calls n r) = max_rr r"
  by (induction n) (simp_all add: nextIndex_eq)

lemma nextIndex_inv:
  assumes "max_rr r < 2 ^ 31 - 1" "rr_inv r"
  shows "0 \<le> fst (nextIndex r) \<and> fst (nextIndex r) \<le> max_rr r \<and> rr_inv (snd (nextIndex r))
     \<and> max_rr (snd (nextIndex r)) = max_rr r"
proof -
  have s: "sint (current_rr r + 1) = sint (current_rr r) + 1"
    using assms by (intro sint_succ) (simp_all add: rr_inv_def)
  show ?thesis
    using assms unfolding nextIndex_eq s rr_inv_def by (simp add: s)
qed

lemma calls_inv:
  assumes "0 \<le> m" "m < 2 ^ 31 - 1"
  shows "rr_inv (calls n (newRoundRobin m)) \<and> max_rr (calls n (newRoundRobin m)) = m"
proof (induction n)
  case 0
  show ?case using assms by (simp add: rr_inv_def newRoundRobin_def)
next
  case (Suc n)
  then show ?case using nextIndex_inv [of "calls n (newRoundRobin m)"] assms by simp
qed

lemma nextIndex_range_aux:
  assumes "0 \<le> m" "m < 2 ^ 31 - 1"
  shows "0 \<le> fst (nextIndex (calls n (newRoundRobin m)))
       \<and> fst (nextIndex (calls n (newRoundRobin m))) \<le> m"
  using calls_inv [OF assms, of n] nextIndex_inv [of "calls n (newRoundRobin m)"] assms
  by simp

lemma calls_small:
  "n \<le> m \<Longrightarrow> n < 2 ^ 31 \<Longrightarrow>
     calls n (newRoundRobin (int m)) = \<lparr>max_rr = int m, current_rr = of_nat n\<rparr>"
proof (induction n)
  case 0
  show ?case by (simp add: newRoundRobin_def)
next
  case (Suc n)
  then have st: "calls n (newRoundRobin (int m)) = \<lparr>max_rr = int m, current_rr = of_nat n\<rparr>"
    by simp
  have "sint (of_nat (Suc n) :: 32 word) = int (Suc n)"
    using Suc.prems by (intro sint_of_nat_32) simp
  then have "sint (of_nat n + 1 :: 32 word) = int n + 1"
    by (simp add: add.commute)
  then show ?case
    using Suc.prems by (simp add: st nextIndex_eq)
qed

lemma publishes_single:
  "length pubs = 1 \<Longrightarrow> publishes n (newPublisherPool pubs) = newPublisherPool pubs"
  by (induction n) (simp_all add: Publish_def newPublisherPool_def)

lemma publishes_many:
  "length pubs \<noteq> 1 \<Longrightarrow>
     publishes n (newPublisherPool pubs)
       = \<lparr>publishers = pubs,
          balancer = Some (calls n (newRoundRobin (wrap64 (int (length pubs) - 1))))\<rparr>"
  by (induction n) (simp_all add: Publish_def newPublisherPool_def split: prod.splits)

lemma Publish_in_bounds:
  assumes "0 < length pubs" "length pubs < 2 ^ 31"
  shows "\<exists>i < length pubs. fst (Publish (publishes n (newPublisherPool pubs))) = Inr (pubs ! i)"
proof (cases "length pubs = 1")
  case True
  have "publishes n (newPublisherPool pubs) = \<lparr>publishers = pubs, balancer = None\<rparr>"
    using True by (simp add: publishes_single) (simp add: newPublisherPool_def)
  then show ?thesis
    using True by (simp add: Publish_def index_def)
next
  case False
  let ?m = "int (length pubs) - 1"
  have w: "wrap64 ?m = ?m"
    using assms by (intro wrap64_id) (simp add: is_int64_def)
  have m: "0 \<le> ?m" "?m < 2 ^ 31 - 1" using assms by simp_all
  obtain i lb' where ni: "nextIndex (calls n (newRoundRobin ?m)) = (i, lb')"
    by (cases "nextIndex (calls n (newRoundRobin ?m))")
  have r: "0 \<le> i \<and> i \<le> ?m"
    using nextIndex_range_aux [OF m, of n] ni by simp
  then have "nat i < length pubs" by linarith
  moreover have "fst (Publish (publishes n (newPublisherPool pubs))) = Inr (pubs ! nat i)"
    using False r by (simp add: publishes_many w Publish_def ni index_def)
  ultimately show ?thesis by blast
qed

text \<open>
  Within the range of the 32-bit counter, that is for a balancer created with
  \<open>0 \<le> max < 2^31 - 1\<close>, the call of \<^verbatim>\<open>nextIndex\<close> after any number \<open>n\<close> of earlier calls
  returns an index \<open>i\<close> with \<open>0 \<le> i \<le> max\<close>; hence a pool of at least one and fewer than
  \<open>2^31\<close> publishers always publishes through one of its publishers and never indexes out of
  bounds.
\<close>

lemma nextIndex_in_range:
  assumes "0 \<le> m" "m < 2 ^ 31 - 1"
  shows "0 \<le> fst (nextIndex (calls n (newRoundRobin m)))
       \<and> fst (nextIndex (calls n (newRoundRobin m))) \<le> m
       \<and> (length pubs = nat m + 1 \<longrightarrow>
            (\<exists>i < length pubs. fst (Publish (publishes k (newPublisherPool pubs))) = Inr (pubs ! i)))"
proof -
  have "length pubs = nat m + 1 \<Longrightarrow>
          \<exists>i < length pubs. fst (Publish (publishes k (newPublisherPool pubs))) = Inr (pubs ! i)"
    using assms by (intro Publish_in_bounds) simp_all
  then show ?thesis
    using nextIndex_range_aux [OF assms, of n] by blast
qed

lemma nextIndex_in_range_witness:
  "0 \<le> fst (nextIndex (calls 5 (newRoundRobin 2)))
   \<and> fst (nextIndex (calls 5 (newRoundRobin 2))) \<le> 2
   \<and> (\<exists>i < 3. fst (Publish (publishes 5 (newPublisherPool [''a'', ''b'', ''c''])))
                  = Inr ([''a'', ''b'', ''c''] ! i))"
  using nextIndex_in_range [where m = 2 and n = 5 and k = 5 and pubs = "[''a'', ''b'', ''c'']"]
  by (simp add: numeral_3_eq_3)

text \<open>
  C10. Every call of \<^verbatim>\<open>nextIndex\<close> on a balancer created with \<open>max \<ge> 0\<close> is to return an index
  \<open>i\<close> with \<open>0 \<le> i \<le> max\<close>, and \<^verbatim>\<open>nextIndex\<close> resets the counter once it exceeds \<open>max\<close> to
  keep it so. The counter is an \<^verbatim>\<open>int32\<close> while \<open>max\<close> is an \<^verbatim>\<open>int\<close>: with \<open>max = 2^31 - 1\<close> the
  counter reaches \<open>2^31 - 1\<close> after as many calls, the next increment wraps to \<open>- 2^31\<close>, which
  is not above \<open>max\<close>, and the call returns the negative index \<open>- 2^31\<close>. A pool of \<open>2^31\<close>
  publishers, whose balancer has this bound, then indexes its publishers out of bounds.
\<close>

theorem nextIndex_wraps_negative:
  "fst (nextIndex (calls 2147483647 (newRoundRobin 2147483647))) = - 2147483648
   \<and> fst (Publish (publishes 2147483647 (newPublisherPool (replicate 2147483648 ''p''))))
       = Inl IndexOutOfRange"
proof -
  have c: "calls 2147483647 (newRoundRobin (int 2147483647))
          = \<lparr>max_rr = int 2147483647, current_rr = of_nat 2147483647\<rparr>"
    by (rule calls_small) simp_all
  then have n: "nextIndex (calls 2147483647 (newRoundRobin 2147483647))
      = (- 2147483648, \<lparr>max_rr = 2147483647, current_rr = 2147483648\<rparr>)"
    by (simp add: nextIndex_eq)
  have l: "length (replicate 2147483648 ''p'') \<noteq> 1" by simp
  have w: "wrap64 (int (length (replicate 2147483648 ''p'')) - 1) = 2147483647"
    by (simp add: wrap64_def)
  have "fst (Publish (publishes 2147483647 (newPublisherPool (replicate 2147483648 ''p''))))
       = Inl IndexOutOfRange"
    unfolding publishes_many [OF l] w
    by (simp add: Publish_def n index_def)
  with n show ?thesis by simp
qed

section \<open>DID anchor store: reads\<close>

text \<open>
  C7 (as amended). Single-key \<^verbatim>\<open>Get\<close> translates the not-found sentinel of the storage
  layer into \<^verbatim>\<open>didanchor.ErrDataNotFound\<close> and any other storage error into a
  transient-tagged error, so a suffix absent from the index reads as
  \<^verbatim>\<open>didanchor.ErrDataNotFound\<close>. \<^verbatim>\<open>GetBulk\<close> turns a storage error into a transient-tagged
  error, but reports no error for a missing suffix: the result holds one anchor per suffix, the
  empty string standing for a suffix that is absent.
\<close>

theorem didanchor_reads:
  "(\<forall>e. store_Get st s suffix = Inl e \<and> Is e StorageErrDataNotFound
        \<longrightarrow> didanchor_Get st s suffix = Inl (Sentinel DidAnchorErrDataNotFound))
   \<and> (\<forall>e. store_Get st s suffix = Inl e \<and> \<not> Is e StorageErrDataNotFound
        \<longrightarrow> (\<exists>e'. didanchor_Get st s suffix = Inl e' \<and> IsTransient e'))
   \<and> (\<forall>v. store_Get st s suffix = Inr v \<longrightarrow> didanchor_Get st s suffix = Inr v)
   \<and> (m suffix = None
        \<longrightarrow> didanchor_Get memStorage m suffix = Inl (Sentinel DidAnchorErrDataNotFound))
   \<and> (\<forall>e. store_GetBulk st s suffixes = Inl e
        \<longrightarrow> (\<exists>e'. didanchor_GetBulk st s suffixes = Returns (Inl e') \<and> IsTransient e'))
   \<and> (\<forall>vs. store_GetBulk st s suffixes = Inr vs \<and> length vs = length suffixes
        \<longrightarrow> didanchor_GetBulk st s suffixes
              = Returns (Inr (map (\<lambda>a. case a of None \<Rightarrow> '''' | Some v \<Rightarrow> v) vs)))
   \<and> (\<exists>anchors. didanchor_GetBulk memStorage m suffixes = Returns (Inr anchors)
          \<and> length anchors = length suffixes
          \<and> (\<forall>i < length suffixes.
                anchors ! i = (case m (suffixes ! i) of None \<Rightarrow> '''' | Some v \<Rightarrow> v)))"
proof -
  have g1: "\<forall>e. store_Get st s suffix = Inl e \<and> Is e StorageErrDataNotFound
        \<longrightarrow> didanchor_Get st s suffix = Inl (Sentinel DidAnchorErrDataNotFound)"
    by (simp add: didanchor_Get_def)
  have g2: "\<forall>e. store_Get st s suffix = Inl e \<and> \<not> Is e StorageErrDataNotFound
        \<longrightarrow> (\<exists>e'. didanchor_Get st s suffix = Inl e' \<and> IsTransient e')"
    by (simp add: didanchor_Get_def)
  have g3: "\<forall>v. store_Get st s suffix = Inr v \<longrightarrow> didanchor_Get st s suffix = Inr v"
    by (simp add: didanchor_Get_def)
  have g4: "m suffix = None
        \<longrightarrow> didanchor_Get memStorage m suffix = Inl (Sentinel DidAnchorErrDataNotFound)"
    by (simp add: didanchor_Get_def memStorage_def)
  have b1: "\<forall>e. store_GetBulk st s suffixes = Inl e
        \<longrightarrow> (\<exists>e'. didanchor_GetBulk st s suffixes = Returns (Inl e') \<and> IsTransient e')"
    by (simp add: didanchor_GetBulk_def)
  have b2: "\<forall>vs. store_GetBulk st s suffixes = Inr vs \<and> length vs = length suffixes
        \<longrightarrow> didanchor_GetBulk st s suffixes
              = Returns (Inr (map (\<lambda>a. case a of None \<Rightarrow> '''' | Some v \<Rightarrow> v) vs))"
    by (simp add: didanchor_GetBulk_def)
  have b3: "\<exists>anchors. didanchor_GetBulk memStorage m suffixes = Returns (Inr anchors)
          \<and> length anchors = length suffixes
          \<and> (\<forall>i < length suffixes.
                anchors ! i = (case m (suffixes ! i) of None \<Rightarrow> '''' | Some v \<Rightarrow> v))"
    by (simp add: didanchor_GetBulk_def memStorage_def)
  from g1 g2 g3 g4 b1 b2 b3 show ?thesis
    by - (intro conjI; assumption)
qed

theorem didanchor_reads_witness:
  "didanchor_Get memStorage Map.empty ''EiA'' = Inl (Sentinel DidAnchorErrDataNotFound)
   \<and> didanchor_Get memStorage (Map.empty(''EiA'' \<mapsto> ''hl:uEiB'')) ''EiA'' = Inr ''hl:uEiB''
   \<and> didanchor_GetBulk memStorage (Map.empty(''EiA'' \<mapsto> ''hl:uEiB'')) [''EiC'', ''EiA'']
       = Returns (Inr ['''', ''hl:uEiB''])"
proof -
  let ?m = "Map.empty(''EiA'' \<mapsto> ''hl:uEiB'')"
  have a: "didanchor_Get memStorage Map.empty ''EiA'' = Inl (Sentinel DidAnchorErrDataNotFound)"
    using didanchor_reads [where st = memStorage and s = Map.empty and m = Map.empty
        and suffix = "''EiA''" and suffixes = "[]"] by simp
  have g: "store_Get memStorage ?m ''EiA'' = Inr ''hl:uEiB''"
    by (simp add: memStorage_def)
  have b: "didanchor_Get memStorage ?m ''EiA'' = Inr ''hl:uEiB''"
    using didanchor_reads [where st = memStorage and s = ?m and m = Map.empty
        and suffix = "''EiA''" and suffixes = "[]"] g by simp
  have gb: "store_GetBulk memStorage ?m [''EiC'', ''EiA''] = Inr [None, Some ''hl:uEiB'']"
    by (simp add: memStorage_def)
  have c: "didanchor_GetBulk memStorage ?m [''EiC'', ''EiA''] = Returns (Inr ['''', ''hl:uEiB''])"
    using didanchor_reads [where st = memStorage and s = ?m and m = Map.empty
        and suffix = "''EiA''" and suffixes = "[''EiC'', ''EiA'']"] gb by simp
  from a b c show ?thesis by simp
qed

text \<open>
  A bulk read of a suffix that is absent from the index succeeds with the empty string; it
  does not fail with \<^verbatim>\<open>didanchor.ErrDataNotFound\<close>.
\<close>

theorem didanchor_GetBulk_missing_counterexample:
  "didanchor_GetBulk memStorage Map.empty [''EiA''] = Returns (Inr [''''])"
  by (simp add: didanchor_GetBulk_def memStorage_def)

section \<open>DID anchor store: bulk writes\<close>

lemma PutBulk_batches:
  "(suffixes \<noteq> [] \<and> length suffixes \<le> length areNew \<longrightarrow>
      (\<exists>res s' batches.
           didanchor_PutBulk st s suffixes areNew cid = Returns (res, s', batches)
         \<and> hd batches = hintedOperations suffixes areNew cid
         \<and> map Key (hd batches) = suffixes
         \<and> (\<forall>i < length suffixes.
               hd batches ! i = \<lparr>Key = suffixes ! i, Value = Some cid,
                                 PutOptions = Some \<lparr>IsNewKey = areNew ! i\<rparr>\<rparr>)
         \<and> (batches = [hintedOperations suffixes areNew cid]
              \<or> batches = [hintedOperations suffixes areNew cid, plainOperations suffixes cid])
         \<and> (length batches = 2 \<longleftrightarrow> firstBatchFailsDuplicate st s suffixes areNew cid)
         \<and> (res \<noteq> None \<longleftrightarrow>
                firstBatchFailsOther st s suffixes areNew cid
              \<or> (firstBatchFailsDuplicate st s suffixes areNew cid
                  \<and> retryFails st s suffixes areNew cid))
         \<and> (\<forall>e. res = Some e \<longrightarrow> IsTransient e)))
   \<and> map Key (plainOperations suffixes cid) = suffixes
   \<and> (\<forall>op \<in> set (plainOperations suffixes cid). Value op = Some cid \<and> PutOptions op = None)
   \<and> (\<exists>e. didanchor_PutBulk st s [] areNew cid = Returns (Some e, s, []) \<and> \<not> IsTransient e)"
proof -
  have k: "length suffixes \<le> length areNew \<Longrightarrow>
             map Key (hintedOperations suffixes areNew cid) = suffixes"
  proof -
    assume le: "length suffixes \<le> length areNew"
    have "(\<lambda>x. Key (case x of (suffix, isNew) \<Rightarrow>
              \<lparr>Key = suffix, Value = Some cid, PutOptions = Some \<lparr>IsNewKey = isNew\<rparr>\<rparr>)) = fst"
      by (auto simp: fun_eq_iff)
    then show ?thesis
      using le by (simp add: hintedOperations_def comp_def map_fst_zip_take)
  qed
  have n: "length suffixes \<le> length areNew \<Longrightarrow> \<forall>i < length suffixes.
             hintedOperations suffixes areNew cid ! i
               = \<lparr>Key = suffixes ! i, Value = Some cid,
                  PutOptions = Some \<lparr>IsNewKey = areNew ! i\<rparr>\<rparr>"
    by (simp add: hintedOperations_def)
  have main: "suffixes \<noteq> [] \<and> length suffixes \<le> length areNew \<longrightarrow>
      (\<exists>res s' batches.
           didanchor_PutBulk st s suffixes areNew cid = Returns (res, s', batches)
         \<and> hd batches = hintedOperations suffixes areNew cid
         \<and> (batches = [hintedOperations suffixes areNew cid]
              \<or> batches = [hintedOperations suffixes areNew cid, plainOperations suffixes cid])
         \<and> (length batches = 2 \<longleftrightarrow> firstBatchFailsDuplicate st s suffixes areNew cid)
         \<and> (res \<noteq> None \<longleftrightarrow>
                firstBatchFailsOther st s suffixes areNew cid
              \<or> (firstBatchFailsDuplicate st s suffixes areNew cid
                  \<and> retryFails st s suffixes areNew cid))
         \<and> (\<forall>e. res = Some e \<longrightarrow> IsTransient e))"
    by (auto simp: didanchor_PutBulk_def firstBatchFailsDuplicate_def firstBatchFailsOther_def
        retryFails_def Let_def split: prod.splits option.splits)
  have p1: "map Key (plainOperations suffixes cid) = suffixes"
    by (simp add: plainOperations_def comp_def)
  have p2: "\<forall>op \<in> set (plainOperations suffixes cid). Value op = Some cid \<and> PutOptions op = None"
    by (auto simp: plainOperations_def)
  have e: "\<exists>e. didanchor_PutBulk st s [] areNew cid = Returns (Some e, s, []) \<and> \<not> IsTransient e"
    by (simp add: didanchor_PutBulk_def)
  from main k n p1 p2 e show ?thesis
    by (intro conjI impI) (metis+)
qed


lemma apply_plain:
  "applyOperations m (plainOperations suffixes cid) x = (if x \<in> set suffixes then Some cid else m x)"
  by (induction suffixes arbitrary: m) (auto simp: plainOperations_def)

lemma apply_hinted:
  "length suffixes \<le> length areNew \<Longrightarrow>
     applyOperations m (hintedOperations suffixes areNew cid) x
       = (if x \<in> set suffixes then Some cid else m x)"
proof (induction suffixes arbitrary: m areNew)
  case Nil
  then show ?case by (simp add: hintedOperations_def)
next
  case (Cons a suffixes)
  then obtain b bs where ar: "areNew = b # bs" by (cases areNew) auto
  with Cons.prems have "length suffixes \<le> length bs" by simp
  from Cons.IH [OF this] show ?case
    by (auto simp: ar hintedOperations_def)
qed

lemma no_wrong_hint_plain: "\<not> list_ex (wrongHint m) (plainOperations suffixes cid)"
  by (simp add: list_ex_iff plainOperations_def wrongHint_def)

lemma PutBulk_mem:
  assumes "suffixes \<noteq> []" "length suffixes \<le> length areNew"
  shows "\<exists>m' batches. didanchor_PutBulk memStorage m suffixes areNew cid = Returns (None, m', batches)
           \<and> (\<forall>x. m' x = (if x \<in> set suffixes then Some cid else m x))"
proof (cases "list_ex (wrongHint m) (hintedOperations suffixes areNew cid)")
  case True
  then show ?thesis
    using assms no_wrong_hint_plain [of m suffixes cid]
    by (simp add: didanchor_PutBulk_def memStorage_def apply_plain Let_def)
next
  case False
  then show ?thesis
    using assms
    by (simp add: didanchor_PutBulk_def memStorage_def apply_hinted Let_def)
qed

text \<open>
  C8. For a non-empty list of suffixes (with a flag for each of them), \<^verbatim>\<open>PutBulk\<close> first
  submits one batch that holds an entry (suffix, anchor) with its \<^verbatim>\<open>IsNewKey\<close> hint for every
  suffix. It submits a second batch, with the same entries and without hints, if and only if
  the first batch failed with the duplicate-key error. It returns an error if and only if the
  first batch failed otherwise or the retry failed, and that error is transient-tagged. An
  empty list of suffixes is rejected before any batch is submitted. On the in-memory
  back-end the call succeeds and leaves every suffix mapped to the anchor.
\<close>

theorem PutBulk_contract:
  "(suffixes \<noteq> [] \<and> length suffixes \<le> length areNew \<longrightarrow>
      (\<exists>res s' batches.
           didanchor_PutBulk st s suffixes areNew cid = Returns (res, s', batches)
         \<and> hd batches = hintedOperations suffixes areNew cid
         \<and> map Key (hd batches) = suffixes
         \<and> (\<forall>i < length suffixes.
               hd batches ! i = \<lparr>Key = suffixes ! i, Value = Some cid,
                                 PutOptions = Some \<lparr>IsNewKey = areNew ! i\<rparr>\<rparr>)
         \<and> (batches = [hintedOperations suffixes areNew cid]
              \<or> batches = [hintedOperations suffixes areNew cid, plainOperations suffixes cid])
         \<and> (length batches = 2 \<longleftrightarrow> firstBatchFailsDuplicate st s suffixes areNew cid)
         \<and> (res \<noteq> None \<longleftrightarrow>
                firstBatchFailsOther st s suffixes areNew cid
              \<or> (firstBatchFailsDuplicate st s suffixes areNew cid
                  \<and> retryFails st s suffixes areNew cid))
         \<and> (\<forall>e. res = Some e \<longrightarrow> IsTransient e))
      \<and> (\<exists>m' batches.
            didanchor_PutBulk memStorage m suffixes areNew cid = Returns (None, m', batches)
          \<and> (\<forall>x. m' x = (if x \<in> set suffixes then Some cid else m x))))
   \<and> map Key (plainOperations suffixes cid) = suffixes
   \<and> (\<forall>op \<in> set (plainOperations suffixes cid). Value op = Some cid \<and> PutOptions op = None)
   \<and> (\<exists>e. didanchor_PutBulk st s [] areNew cid = Returns (Some e, s, []) \<and> \<not> IsTransient e)"
  using PutBulk_batches [of suffixes areNew st s cid] PutBulk_mem [of suffixes areNew m cid]
  by blast

theorem PutBulk_contract_witness:
  "(\<exists>m'. didanchor_PutBulk memStorage (Map.empty(''EiA'' \<mapsto> ''hl:uEiB''))
             [''EiC'', ''EiA''] [True, True] ''hl:uEiD''
           = Returns (None, m',
               [[\<lparr>Key = ''EiC'', Value = Some ''hl:uEiD'', PutOptions = Some \<lparr>IsNewKey = True\<rparr>\<rparr>,
                 \<lparr>Key = ''EiA'', Value = Some ''hl:uEiD'', PutOptions = Some \<lparr>IsNewKey = True\<rparr>\<rparr>],
                [\<lparr>Key = ''EiC'', Value = Some ''hl:uEiD'', PutOptions = None\<rparr>,
                 \<lparr>Key = ''EiA'', Value = Some ''hl:uEiD'', PutOptions = None\<rparr>]])
         \<and> m' ''EiC'' = Some ''hl:uEiD'' \<and> m' ''EiA'' = Some ''hl:uEiD'')"
proof -
  let ?m = "Map.empty(''EiA'' \<mapsto> ''hl:uEiB'')"
  have d: "firstBatchFailsDuplicate memStorage ?m [''EiC'', ''EiA''] [True, True] ''hl:uEiD''"
    by (simp add: firstBatchFailsDuplicate_def memStorage_def hintedOperations_def wrongHint_def)
  have h: "[''EiC'', ''EiA''] \<noteq> [] \<and> length [''EiC'', ''EiA''] \<le> length [True, True]"
    by simp
  from PutBulk_contract [where st = memStorage and s = ?m and m = ?m
      and suffixes = "[''EiC'', ''EiA'']" and areNew = "[True, True]" and cid = "''hl:uEiD''"]
  have "(\<exists>res s' batches.
           didanchor_PutBulk memStorage ?m [''EiC'', ''EiA''] [True, True] ''hl:uEiD''
             = Returns (res, s', batches)
         \<and> (batches = [hintedOperations [''EiC'', ''EiA''] [True, True] ''hl:uEiD'']
              \<or> batches = [hintedOperations [''EiC'', ''EiA''] [True, True] ''hl:uEiD'',
                            plainOperations [''EiC'', ''EiA''] ''hl:uEiD''])
         \<and> (length batches = 2 \<longleftrightarrow>
               firstBatchFailsDuplicate memStorage ?m [''EiC'', ''EiA''] [True, True] ''hl:uEiD''))
      \<and> (\<exists>m' batches.
            didanchor_PutBulk memStorage ?m [''EiC'', ''EiA''] [True, True] ''hl:uEiD''
              = Returns (None, m', batches)
          \<and> (\<forall>x. m' x = (if x \<in> set [''EiC'', ''EiA''] then Some ''hl:uEiD'' else ?m x)))"
    using h by blast
  with d show ?thesis
    by (auto simp: hintedOperations_def plainOperations_def)
qed

section \<open>Unpublished operation store: reads\<close>








section \<open>Observer: which errors reach the acknowledgement\<close>

lemma processAnchor_payload_error:
  assumes "GetAnchorSubject obs info = Inl e"
  shows "\<exists>e'. fst (processAnchor obs anchor info suffixes) = Some e' \<and> IsTransient e' = IsTransient e"
  using assms by (simp add: processAnchor_def)

lemma processAnchor_namespace_error:
  assumes "GetAnchorSubject obs info = Inr p" "ForNamespace obs (Namespace p) = Inl e"
  shows "\<exists>e'. fst (processAnchor obs anchor info suffixes) = Some e' \<and> IsTransient e' = IsTransient e"
  using assms by (simp add: processAnchor_def)

lemma processAnchor_version_error:
  assumes "GetAnchorSubject obs info = Inr p" "ForNamespace obs (Namespace p) = Inr pc"
    "pc_Get obs pc (Version p) = Inl e"
  shows "\<exists>e'. fst (processAnchor obs anchor info suffixes) = Some e' \<and> IsTransient e' = IsTransient e"
  using assms by (simp add: processAnchor_def)

lemma processAnchor_hashlink_error:
  assumes "GetAnchorSubject obs info = Inr p" "ForNamespace obs (Namespace p) = Inr pc"
    "pc_Get obs pc (Version p) = Inr v" "GetResourceHashFromHashLink obs (Hashlink anchor) = Inl e"
  shows "\<exists>e'. fst (processAnchor obs anchor info suffixes) = Some e' \<and> IsTransient e' = IsTransient e"
  using assms by (simp add: processAnchor_def)

lemma processAnchor_process_error:
  assumes "GetAnchorSubject obs info = Inr p" "ForNamespace obs (Namespace p) = Inr pc"
    "pc_Get obs pc (Version p) = Inr v" "GetResourceHashFromHashLink obs (Hashlink anchor) = Inr c"
    "Process obs v (sidetreeTxnOf obs anchor info p c) suffixes = Some e"
  shows "\<exists>e'. fst (processAnchor obs anchor info suffixes) = Some e' \<and> IsTransient e' = IsTransient e"
  using assms by (simp add: processAnchor_def sidetreeTxnOf_def Let_def)

lemma processAnchor_index_error:
  assumes "GetAnchorSubject obs info = Inr p" "ForNamespace obs (Namespace p) = Inr pc"
    "pc_Get obs pc (Version p) = Inr v" "GetResourceHashFromHashLink obs (Hashlink anchor) = Inr c"
    "Process obs v (sidetreeTxnOf obs anchor info p c) suffixes = None"
    "DidAnchors_PutBulk obs (getKeys (PreviousAnchors p)) (Hashlink anchor) = Some e"
  shows "\<exists>e'. fst (processAnchor obs anchor info suffixes) = Some e' \<and> IsTransient e' = IsTransient e"
  using assms by (simp add: processAnchor_def sidetreeTxnOf_def Let_def)

lemma processAnchor_success:
  assumes "GetAnchorSubject obs info = Inr p" "ForNamespace obs (Namespace p) = Inr pc"
    "pc_Get obs pc (Version p) = Inr v" "GetResourceHashFromHashLink obs (Hashlink anchor) = Inr c"
    "Process obs v (sidetreeTxnOf obs anchor info p c) suffixes = None"
    "DidAnchors_PutBulk obs (getKeys (PreviousAnchors p)) (Hashlink anchor) = None"
  shows "processAnchor obs anchor info suffixes
           = (None, [Processed v (sidetreeTxnOf obs anchor info p c) suffixes,
                     IndexUpdated (getKeys (PreviousAnchors p)) (Hashlink anchor)]
                    @ snd (postLikeActivity obs anchor))"
  using assms by (simp add: processAnchor_def sidetreeTxnOf_def Let_def split: prod.splits)

lemma handleAnchor_fst:
  "fst (handleAnchor obs anchor) =
     (case AnchorGraph_Read obs (Hashlink anchor) of
        Inl err \<Rightarrow> Some err
      | Inr info \<Rightarrow> fst (processAnchor obs anchor info []))"
  by (simp add: handleAnchor_def split: sum.splits prod.splits option.splits)

lemma returnsTagged_I:
  "fst (handleAnchor obs anchor) = Some e' \<Longrightarrow> IsTransient e' = IsTransient e \<Longrightarrow>
     returnsTagged obs anchor e"
  by (simp add: returnsTagged_def acknowledge_def)

lemma handleAnchor_not_read:
  "AnchorGraph_Read obs (Hashlink anchor) = Inl e \<Longrightarrow> returnsTagged obs anchor e"
  by (rule returnsTagged_I [of _ _ e]) (simp_all add: handleAnchor_fst)

lemma handleAnchor_from_processAnchor:
  assumes "AnchorGraph_Read obs (Hashlink anchor) = Inr info"
    and "\<exists>e'. fst (processAnchor obs anchor info []) = Some e' \<and> IsTransient e' = IsTransient e"
  shows "returnsTagged obs anchor e"
proof -
  from assms(2) obtain e' where e: "fst (processAnchor obs anchor info []) = Some e'"
    "IsTransient e' = IsTransient e" by blast
  have "fst (handleAnchor obs anchor) = Some e'"
    using assms(1) e(1) by (simp add: handleAnchor_fst)
  then show ?thesis using e(2) by (rule returnsTagged_I)
qed

lemma handleAnchor_success:
  assumes "AnchorGraph_Read obs (Hashlink anchor) = Inr info"
    "GetAnchorSubject obs info = Inr p" "ForNamespace obs (Namespace p) = Inr pc"
    "pc_Get obs pc (Version p) = Inr v" "GetResourceHashFromHashLink obs (Hashlink anchor) = Inr c"
    "Process obs v (sidetreeTxnOf obs anchor info p c) [] = None"
    "DidAnchors_PutBulk obs (getKeys (PreviousAnchors p)) (Hashlink anchor) = None"
  shows "fst (handleAnchor obs anchor) = None"
  using assms(1) processAnchor_success [OF assms(2-7)]
  by (simp add: handleAnchor_fst)

lemma processAnchor_ignores_outbox:
  "fst (processAnchor (obs\<lparr>Outbox_Post := post\<rparr>) anchor info suffixes)
     = fst (processAnchor obs anchor info suffixes)"
  by (simp add: processAnchor_def Let_def split: sum.splits option.splits prod.splits)

text \<open>
  C5 (as amended). An error of reading the anchor from the anchor graph, of extracting the
  payload, of looking up the protocol client or the protocol version, of deriving the
  canonical identifier, of the transaction processor or of the update of the DID anchor index
  makes \<^verbatim>\<open>handleAnchor\<close> return an error with the same tag: a transient one is negatively
  acknowledged and redelivered, any other is positively acknowledged. When all of these
  succeed \<^verbatim>\<open>handleAnchor\<close> returns no error and the message is positively acknowledged,
  whatever the outcome of posting the Like activities: the result never depends on the
  outbox.
\<close>

theorem handleAnchor_error_propagation:
  "(AnchorGraph_Read obs (Hashlink anchor) = Inl e \<longrightarrow> returnsTagged obs anchor e)
   \<and> (AnchorGraph_Read obs (Hashlink anchor) = Inr info \<longrightarrow>
        (GetAnchorSubject obs info = Inl e \<longrightarrow> returnsTagged obs anchor e)
      \<and> (GetAnchorSubject obs info = Inr p \<longrightarrow>
           (ForNamespace obs (Namespace p) = Inl e \<longrightarrow> returnsTagged obs anchor e)
         \<and> (ForNamespace obs (Namespace p) = Inr pc \<longrightarrow>
              (pc_Get obs pc (Version p) = Inl e \<longrightarrow> returnsTagged obs anchor e)
            \<and> (pc_Get obs pc (Version p) = Inr v \<longrightarrow>
                 (GetResourceHashFromHashLink obs (Hashlink anchor) = Inl e
                    \<longrightarrow> returnsTagged obs anchor e)
               \<and> (GetResourceHashFromHashLink obs (Hashlink anchor) = Inr c \<longrightarrow>
                    (Process obs v (sidetreeTxnOf obs anchor info p c) [] = Some e
                       \<longrightarrow> returnsTagged obs anchor e)
                  \<and> (Process obs v (sidetreeTxnOf obs anchor info p c) [] = None \<longrightarrow>
                       (DidAnchors_PutBulk obs (getKeys (PreviousAnchors p)) (Hashlink anchor)
                          = Some e \<longrightarrow> returnsTagged obs anchor e)
                     \<and> (DidAnchors_PutBulk obs (getKeys (PreviousAnchors p)) (Hashlink anchor)
                          = None \<longrightarrow>
                          fst (handleAnchor obs anchor) = None
                        \<and> acknowledge (fst (handleAnchor obs anchor)) = Ack)))))))
   \<and> fst (handleAnchor (obs\<lparr>Outbox_Post := post\<rparr>) anchor) = fst (handleAnchor obs anchor)"
proof -
  have ni: "fst (handleAnchor (obs\<lparr>Outbox_Post := post\<rparr>) anchor) = fst (handleAnchor obs anchor)"
    by (simp add: handleAnchor_fst processAnchor_ignores_outbox split: sum.splits)
  have ok: "\<And>x. fst (handleAnchor obs anchor) = None \<Longrightarrow>
              acknowledge (fst (handleAnchor obs anchor)) = Ack"
    by (simp add: acknowledge_def)
  note pa = processAnchor_payload_error [of obs info e anchor "[]"]
      processAnchor_namespace_error [of obs info p e anchor "[]"]
      processAnchor_version_error [of obs info p pc e anchor "[]"]
      processAnchor_hashlink_error [of obs info p pc v anchor e "[]"]
      processAnchor_process_error [of obs info p pc v anchor c "[]" e]
      processAnchor_index_error [of obs info p pc v anchor c "[]" e]
  show ?thesis
    apply (intro conjI impI)
              apply (erule handleAnchor_not_read)
             apply (erule handleAnchor_from_processAnchor, erule pa)
            apply (erule handleAnchor_from_processAnchor, erule (1) pa)
           apply (erule handleAnchor_from_processAnchor, erule (2) pa)
          apply (erule handleAnchor_from_processAnchor, erule (3) pa)
         apply (erule handleAnchor_from_processAnchor, erule (4) pa)
        apply (erule handleAnchor_from_processAnchor, erule (5) pa)
       apply (erule (6) handleAnchor_success)
      apply (rule ok, erule (6) handleAnchor_success)
    apply (rule ni)
    done
qed

theorem handleAnchor_error_propagation_witness:
  "acknowledge (fst (handleAnchor (sampleObserver workingOutbox\<lparr>Process := failingProcessor\<rparr>)
                      (sampleAnchor ''https://orb.domain2.com/services/orb''))) = Nack
   \<and> acknowledge (fst (handleAnchor (sampleObserver failingOutbox)
                      (sampleAnchor ''https://orb.domain2.com/services/orb''))) = Ack"
proof -
  let ?A = "sampleAnchor ''https://orb.domain2.com/services/orb''"
  let ?p = "\<lparr>Namespace = ''did:orb'', Version = 0, OperationCount = 1,
             CoreIndex = ''hl:uEiCoreIndex'', PreviousAnchors = [(''EiA'', '''')]\<rparr>"
  let ?e = "NewTransient (New ''operation store unavailable'')"
  let ?bad = "sampleObserver workingOutbox\<lparr>Process := failingProcessor\<rparr>"
  let ?good = "sampleObserver failingOutbox"
  have g: "AnchorGraph_Read ?good (Hashlink ?A) = Inr ''vc''"
    "GetAnchorSubject ?good ''vc'' = Inr ?p" "ForNamespace ?good (Namespace ?p) = Inr ()"
    "pc_Get ?good () (Version ?p) = Inr ()"
    "GetResourceHashFromHashLink ?good (Hashlink ?A) = Inr ''uEiAnchor''"
    "Process ?good () (sidetreeTxnOf ?good ?A ''vc'' ?p ''uEiAnchor'') [] = None"
    "DidAnchors_PutBulk ?good (getKeys (PreviousAnchors ?p)) (Hashlink ?A) = None"
    by (simp_all add: sampleObserver_def sampleAnchor_def)
  have b: "AnchorGraph_Read ?bad (Hashlink ?A) = Inr ''vc''"
    "GetAnchorSubject ?bad ''vc'' = Inr ?p" "ForNamespace ?bad (Namespace ?p) = Inr ()"
    "pc_Get ?bad () (Version ?p) = Inr ()"
    "GetResourceHashFromHashLink ?bad (Hashlink ?A) = Inr ''uEiAnchor''"
    "Process ?bad () (sidetreeTxnOf ?bad ?A ''vc'' ?p ''uEiAnchor'') [] = Some ?e"
    by (simp_all add: sampleObserver_def sampleAnchor_def failingProcessor_def)
  have "returnsTagged ?bad ?A ?e"
    using handleAnchor_error_propagation [where obs = ?bad and anchor = ?A and info = "''vc''"
        and p = ?p and pc = "()" and v = "()" and c = "''uEiAnchor''" and e = ?e
        and post = workingOutbox] b
    by blast
  then have n: "acknowledge (fst (handleAnchor ?bad ?A)) = Nack"
    by (auto simp: returnsTagged_def)
  have a: "acknowledge (fst (handleAnchor ?good ?A)) = Ack"
    using handleAnchor_error_propagation [where obs = ?good and anchor = ?A and info = "''vc''"
        and p = ?p and pc = "()" and v = "()" and c = "''uEiAnchor''" and e = ?e
        and post = workingOutbox] g
    by blast
  from n a show ?thesis by simp
qed

text \<open>
  A transient error of the outbox while the Like activity is posted does not reach the
  result: \<^verbatim>\<open>postLikeActivity\<close> fails with a transient-tagged error, \<^verbatim>\<open>handleAnchor\<close> returns
  no error, and the message is positively acknowledged.
\<close>

theorem handleAnchor_like_error_counterexample:
  "fst (postLikeActivity (sampleObserver failingOutbox)
          (sampleAnchor ''https://orb.domain2.com/services/orb''))
     = Some (Wrap ''post like'' (Wrap ''post like'' (NewTransient (New ''outbox unavailable''))))
   \<and> IsTransient (Wrap ''post like'' (Wrap ''post like'' (NewTransient (New ''outbox unavailable''))))
   \<and> fst (handleAnchor (sampleObserver failingOutbox)
            (sampleAnchor ''https://orb.domain2.com/services/orb'')) = None
   \<and> acknowledge (fst (handleAnchor (sampleObserver failingOutbox)
                     (sampleAnchor ''https://orb.domain2.com/services/orb''))) = Ack"
  by (simp add: postLikeActivity_def doPostLikeActivity_def handleAnchor_def processAnchor_def
      sampleObserver_def sampleAnchor_def failingOutbox_def acknowledge_def Let_def)

section \<open>Observer: the Like activities\<close>








section \<open>IPFS CAS client: reading back what was written\<close>

lemma HasPrefix_append: "HasPrefix (p @ s) p"
  by (simp add: HasPrefix_def)

lemma CreateHashLink_prefix:
  "CreateHashLink cd content links = Inr hl \<Longrightarrow> HasPrefix hl ''hl:''"
  by (auto simp: CreateHashLink_def HLPrefix_def HasPrefix_def split: if_splits sum.splits)

lemma Write_prefix:
  "Write cd node m content = (Inr hl, m') \<Longrightarrow> HasPrefix hl ''hl:''"
  by (auto simp: Write_def Let_def split: prod.splits sum.splits dest: CreateHashLink_prefix)

lemma Write_empty: "fst (Write cd node m []) = Inl (New ''empty content'')"
  by (simp add: Write_def WriteWithCIDFormat_def)

lemma takeWhile_no_colon:
  "CHR '':'' \<notin> set h \<Longrightarrow> takeWhile (\<lambda>c. c \<noteq> CHR '':'') (h @ CHR '':'' # md) = h"
  by (induction h) auto

lemma dropWhile_no_colon:
  "CHR '':'' \<notin> set h \<Longrightarrow> dropWhile (\<lambda>c. c \<noteq> CHR '':'') (h @ CHR '':'' # md) = CHR '':'' # md"
  by (induction h) auto

lemma ParseHashLink_created:
  assumes "CHR '':'' \<notin> set (multihashOf cd content)"
    "encodeLinks cd links = Inr md" "decodeLinks cd md = Inr ls" "links \<noteq> []"
  shows "CreateHashLink cd content links = Inr (''hl:'' @ multihashOf cd content @ '':'' @ md)"
    and "ParseHashLink cd (''hl:'' @ multihashOf cd content @ '':'' @ md)
           = Inr (multihashOf cd content)"
  using assms
  by (simp_all add: CreateHashLink_def ParseHashLink_def HLPrefix_def HasPrefix_def
      takeWhile_no_colon dropWhile_no_colon)

lemma WriteWithCIDFormat_storeNode:
  assumes "content \<noteq> []" "getOptions os = Inr v"
  shows "WriteWithCIDFormat (storeNode cidOf) m content os
           = (Inr (cidOf (v = 1) content), m\<lparr>ipfs := (ipfs m)(cidOf (v = 1) content \<mapsto> content)\<rparr>)"
  using assms by (simp add: WriteWithCIDFormat_def storeNode_def)

lemma getOptions_version: "getOptions os = Inr v \<Longrightarrow> v = 0 \<or> v = 1"
  by (auto simp: getOptions_def Let_def split: if_splits)

lemma getCID_created:
  assumes "getOptions (opts m) = Inr v"
    "CHR '':'' \<notin> set (multihashOf cd content)"
    "decodeLinks cd md = Inr ls"
    "\<not> IsValidCID cd (multihashOf cd content)"
    "(if v = 0 then ToV0CID cd else ToV1CID cd) (multihashOf cd content) = Inr cid"
  shows "getCID cd m (''hl:'' @ multihashOf cd content @ '':'' @ md) = Inr cid"
proof -
  have p: "ParseHashLink cd (''hl:'' @ multihashOf cd content @ '':'' @ md)
             = Inr (multihashOf cd content)"
    using assms(2,3)
    by (simp add: ParseHashLink_def HLPrefix_def HasPrefix_def takeWhile_no_colon
        dropWhile_no_colon)
  have h: "HasPrefix (''hl:'' @ multihashOf cd content @ '':'' @ md) HLPrefix"
    by (simp add: HLPrefix_def HasPrefix_def)
  have c: "getCIDFromHash cd m (multihashOf cd content) = Inr cid"
    using assms(1,5) getOptions_version [OF assms(1)]
    by (auto simp: getCIDFromHash_def)
  show ?thesis
    unfolding getCID_def using h p c assms(4) by simp
qed

lemma cache_Get_stored:
  assumes "ipfs m cid = Some content" "cache m cid = None \<or> cache m cid = Some content"
    "content \<noteq> ''null''"
  shows "fst (cache_Get (storeNode cidOf) m cid) = Inr content"
  using assms by (auto simp: cache_Get_def get_def storeNode_def)

lemma cache_Get_null:
  assumes "ipfs m cid = Some ''null''" "cache m cid = None"
  shows "fst (cache_Get (storeNode cidOf) m cid) = Inl (NewTransient (Sentinel ErrContentNotFound))"
  using assms by (auto simp: cache_Get_def get_def storeNode_def)

lemma Read_after_Write:
  assumes "content \<noteq> []" "content \<noteq> ''null''"
    and "getOptions (opts m) = Inr v"
    and "CHR '':'' \<notin> set (multihashOf cd content)"
    and "encodeLinks cd [''ipfs://'' @ cidOf (v = 1) content] = Inr md"
    and "decodeLinks cd md = Inr ls"
    and "\<not> IsValidCID cd (multihashOf cd content)"
    and "(if v = 0 then ToV0CID cd else ToV1CID cd) (multihashOf cd content)
           = Inr (cidOf (v = 1) content)"
    and "cacheConsistent m"
    and "ipfs m (cidOf (v = 1) content) = None \<or> ipfs m (cidOf (v = 1) content) = Some content"
  shows "\<exists>hl m'. Write cd (storeNode cidOf) m content = (Inr hl, m')
           \<and> HasPrefix hl ''hl:''
           \<and> fst (Read cd (storeNode cidOf) m' hl) = Inr content"
proof -
  let ?cid = "cidOf (v = 1) content"
  let ?hl = "''hl:'' @ multihashOf cd content @ '':'' @ md"
  let ?m' = "m\<lparr>ipfs := (ipfs m)(?cid \<mapsto> content)\<rparr>"
  have w: "Write cd (storeNode cidOf) m content = (Inr ?hl, ?m')"
    using WriteWithCIDFormat_storeNode [OF assms(1,3), of cidOf m]
      ParseHashLink_created(1) [OF assms(4,5,6)]
    by (simp add: Write_def)
  have o: "getOptions (opts ?m') = Inr v" using assms(3) by simp
  have g: "getCID cd ?m' ?hl = Inr ?cid"
    by (rule getCID_created [OF o assms(4) assms(6) assms(7) assms(8)])
  have c: "cache ?m' ?cid = None \<or> cache ?m' ?cid = Some content"
  proof (cases "cache m ?cid")
    case None
    then show ?thesis by simp
  next
    case (Some x)
    with assms(9) have "ipfs m ?cid = Some x" by (simp add: cacheConsistent_def)
    with assms(10) Some show ?thesis by simp
  qed
  have "fst (cache_Get (storeNode cidOf) ?m' ?cid) = Inr content"
    using c assms(2) by (intro cache_Get_stored) simp_all
  then have r: "fst (Read cd (storeNode cidOf) ?m' ?hl) = Inr content"
    unfolding Read_def g by simp
  from w r show ?thesis
    using HasPrefix_append [of "''hl:''"] by auto
qed

text \<open>
  C2 (as amended). For every content that is neither empty nor the four bytes \<^verbatim>\<open>null\<close>,
  written through a client whose CID version is 0 or 1 to a node that returns what was
  added, \<^verbatim>\<open>Write\<close> returns a hashlink that begins with \<^verbatim>\<open>hl:\<close> and \<^verbatim>\<open>Read\<close> of that hashlink
  returns the content unchanged. This presupposes that the multihash of the content contains
  no colon and is not itself a CID, that the metadata of the link can be encoded and decoded,
  that the CID derived from the multihash is the CID under which the node has stored the
  content, and that the cache holds only what the node stores. Every hashlink that \<^verbatim>\<open>Write\<close>
  returns begins with \<^verbatim>\<open>hl:\<close>, and empty content is rejected.
\<close>

theorem Read_Write_roundtrip:
  assumes "content \<noteq> []" "content \<noteq> ''null''"
    and "getOptions (opts m) = Inr v"
    and "CHR '':'' \<notin> set (multihashOf cd content)"
    and "encodeLinks cd [''ipfs://'' @ cidOf (v = 1) content] = Inr md"
    and "decodeLinks cd md = Inr ls"
    and "\<not> IsValidCID cd (multihashOf cd content)"
    and "(if v = 0 then ToV0CID cd else ToV1CID cd) (multihashOf cd content)
           = Inr (cidOf (v = 1) content)"
    and "cacheConsistent m"
    and "ipfs m (cidOf (v = 1) content) = None \<or> ipfs m (cidOf (v = 1) content) = Some content"
  shows "(\<exists>hl m'. Write cd (storeNode cidOf) m content = (Inr hl, m')
           \<and> HasPrefix hl ''hl:''
           \<and> fst (Read cd (storeNode cidOf) m' hl) = Inr content)
       \<and> (\<forall>c hl m'. Write cd (storeNode cidOf) m c = (Inr hl, m') \<longrightarrow> HasPrefix hl ''hl:'')
       \<and> fst (Write cd (storeNode cidOf) m []) = Inl (New ''empty content'')"
  using Read_after_Write [where cidOf = cidOf and v = v and m = m and cd = cd, OF assms] Write_prefix [of cd "storeNode cidOf" m] Write_empty
  by blast

theorem Read_Write_roundtrip_witness:
  "\<exists>hl m'. Write sampleCodec (storeNode sampleCidOf) (newClient []) ''hello'' = (Inr hl, m')
      \<and> HasPrefix hl ''hl:''
      \<and> fst (Read sampleCodec (storeNode sampleCidOf) m' hl) = Inr ''hello''"
proof -
  have h: "''hello'' \<noteq> []" "''hello'' \<noteq> ''null''"
    "getOptions (opts (newClient [])) = Inr 1"
    "CHR '':'' \<notin> set (multihashOf sampleCodec ''hello'')"
    "encodeLinks sampleCodec [''ipfs://'' @ sampleCidOf ((1::int) = 1) ''hello'']
       = Inr ''uoQ-ipfs://bafkuEihello,''"
    "decodeLinks sampleCodec ''uoQ-ipfs://bafkuEihello,'' = Inr [''uoQ-ipfs://bafkuEihello,'']"
    "\<not> IsValidCID sampleCodec (multihashOf sampleCodec ''hello'')"
    "(if (1::int) = 0 then ToV0CID sampleCodec else ToV1CID sampleCodec)
        (multihashOf sampleCodec ''hello'') = Inr (sampleCidOf ((1::int) = 1) ''hello'')"
    "cacheConsistent (newClient [])"
    "ipfs (newClient []) (sampleCidOf ((1::int) = 1) ''hello'') = None
       \<or> ipfs (newClient []) (sampleCidOf ((1::int) = 1) ''hello'') = Some ''hello''"
    by (simp_all add: getOptions_def newClient_def sampleCodec_def sampleCidOf_def
        HasPrefix_def cacheConsistent_def)
  from Read_Write_roundtrip [where cidOf = sampleCidOf and v = 1 and m = "newClient []"
      and cd = sampleCodec and content = "''hello''", OF h]
  show ?thesis by blast
qed

text \<open>
  The content \<^verbatim>\<open>null\<close> is written like any other, but \<^verbatim>\<open>get\<close> takes the bytes \<^verbatim>\<open>null\<close>
  coming back from the node for missing content: reading it back fails with a
  transient-tagged content-not-found error.
\<close>

theorem Read_Write_null_counterexample:
  "fst (Write sampleCodec (storeNode sampleCidOf) (newClient []) ''null'')
     = Inr ''hl:uEinull:uoQ-ipfs://bafkuEinull,''
   \<and> fst (Read sampleCodec (storeNode sampleCidOf)
            (snd (Write sampleCodec (storeNode sampleCidOf) (newClient []) ''null''))
            ''hl:uEinull:uoQ-ipfs://bafkuEinull,'')
     = Inl (NewTransient (Sentinel ErrContentNotFound))"
  by (simp add: Write_def WriteWithCIDFormat_def getOptions_def newClient_def storeNode_def
      CreateHashLink_def HLPrefix_def sampleCodec_def sampleCidOf_def Read_def getCID_def
      ParseHashLink_def HasPrefix_def getCIDFromHash_def cache_Get_def get_def Let_def)

section \<open>The walk over the anchor graph\<close>

lemma walk_Cons_cases:
  assumes "walk w d path acc (r # rs) = Inr res"
  obtains (skip) "HasPrefix r HLPrefix"
      "isProcessed w r = Inr True \<or> (unprocessed w r \<and> r \<in> set acc)"
      "walk w d path acc rs = Inr res"
  | (expand) d' ups acc' where "HasPrefix r HLPrefix" "unprocessed w r" "r \<notin> set acc"
      "r \<notin> set path" "d = Suc d'" "resolveUp w r = Inr ups"
      "walk w d' (r # path) acc ups = Inr acc'" "walk w d path (acc' @ [r]) rs = Inr res"
  using assms
  by (auto simp: unprocessed_def split: if_splits sum.splits bool.splits nat.splits)

lemma ancestor_mono: "ancestor w rs x \<Longrightarrow> set rs \<subseteq> set refs \<Longrightarrow> ancestor w refs x"
  by (induction rule: ancestor.induct) (auto intro: ancestor.intros)

lemma ancestor_of_parent:
  assumes "ancestor w ups x" "resolveUp w r = Inr ups" "ancestor w refs r"
  shows "ancestor w refs x"
  using assms
proof (induction rule: ancestor.induct)
  case (parent u)
  then have "u \<in> set (unprocessedParents w r)" by (simp add: unprocessedParents_def)
  with parent show ?case by (auto intro: ancestor.older)
next
  case (older y u)
  then show ?case by (auto intro: ancestor.older)
qed

lemma parentsFirst_snoc:
  assumes "parentsFirst w xs" "set (unprocessedParents w r) \<subseteq> set xs"
  shows "parentsFirst w (xs @ [r])"
  unfolding parentsFirst_def
proof (intro allI impI ballI)
  fix i u
  assume i: "i < length (xs @ [r])" and u: "u \<in> set (unprocessedParents w ((xs @ [r]) ! i))"
  show "u \<in> set (take i (xs @ [r]))"
  proof (cases "i < length xs")
    case True
    with u have "u \<in> set (unprocessedParents w (xs ! i))" by (simp add: nth_append)
    with assms(1) True have "u \<in> set (take i xs)" by (simp add: parentsFirst_def)
    with True show ?thesis by simp
  next
    case False
    with i have "i = length xs" by simp
    with u assms(2) show ?thesis by auto
  qed
qed

lemma parentsFirst_closed:
  assumes "parentsFirst w xs" "y \<in> set xs" "u \<in> set (unprocessedParents w y)"
  shows "u \<in> set xs"
proof -
  from assms(2) obtain i where i: "i < length xs" "xs ! i = y" by (auto simp: in_set_conv_nth)
  with assms(1,3) have "u \<in> set (take i xs)" by (auto simp: parentsFirst_def)
  then show ?thesis by (rule in_set_takeD)
qed

lemma walk_invariant:
  "walk w d path acc refs = Inr res \<Longrightarrow> walkInv w acc \<Longrightarrow>
     (\<exists>new. res = acc @ new \<and> set new \<inter> set path = {}
           \<and> (\<forall>x \<in> set new. ancestor w refs x)
           \<and> (new \<noteq> [] \<longrightarrow> last new \<in> set refs))
     \<and> walkInv w res
     \<and> (\<forall>r \<in> set refs. unprocessed w r \<longrightarrow> r \<in> set res)"
proof (induction w d path acc refs arbitrary: res rule: walk.induct)
  case (1 w d path acc)
  then show ?case by simp
next
  case (2 w d path acc r rs)
  from "2.prems"(1) show ?case
  proof (cases rule: walk_Cons_cases)
    case skip
    have ih: "(\<exists>new. res = acc @ new \<and> set new \<inter> set path = {}
           \<and> (\<forall>x \<in> set new. ancestor w rs x)
           \<and> (new \<noteq> [] \<longrightarrow> last new \<in> set rs))
     \<and> walkInv w res
     \<and> (\<forall>r \<in> set rs. unprocessed w r \<longrightarrow> r \<in> set res)"
      using skip(2)
    proof
      assume p: "isProcessed w r = Inr True"
      show ?thesis
        by (rule "2.IH"(1) [OF _ p refl skip(3) "2.prems"(2)]) (simp add: skip(1))
    next
      assume p: "unprocessed w r \<and> r \<in> set acc"
      then have q: "isProcessed w r = Inr False" by (simp add: unprocessed_def)
      show ?thesis
        by (rule "2.IH"(2) [OF _ q refl _ skip(3) "2.prems"(2)]) (simp_all add: skip(1) p)
    qed
    then obtain new where n: "res = acc @ new" "set new \<inter> set path = {}"
      "\<forall>x \<in> set new. ancestor w rs x" "new \<noteq> [] \<longrightarrow> last new \<in> set rs"
      and inv: "walkInv w res" and all: "\<forall>r \<in> set rs. unprocessed w r \<longrightarrow> r \<in> set res"
      by blast
    have a: "\<forall>x \<in> set new. ancestor w (r # rs) x"
      using n(3) by (auto intro: ancestor_mono)
    have r: "unprocessed w r \<longrightarrow> r \<in> set res"
      using skip(2) n(1) by (auto simp: unprocessed_def)
    show ?thesis
      using n a inv all r by auto
  next
    case (expand d' ups acc')
    have q: "isProcessed w r = Inr False" using expand(2) by (simp add: unprocessed_def)
    have hp: "\<not> \<not> HasPrefix r HLPrefix" using expand(1) by simp
    note ih1 = "2.IH"(3) [OF hp q refl expand(3) expand(4) expand(5) expand(6) expand(7) "2.prems"(2)]
    then obtain n1 where n1: "acc' = acc @ n1" "set n1 \<inter> set (r # path) = {}"
      "\<forall>x \<in> set n1. ancestor w ups x"
      and inv1: "walkInv w acc'" and all1: "\<forall>u \<in> set ups. unprocessed w u \<longrightarrow> u \<in> set acc'"
      by blast
    have ar: "ancestor w (r # rs) r"
      using expand(2) by (auto intro: ancestor.parent)
    have pr: "set (unprocessedParents w r) \<subseteq> set acc'"
      using all1 by (auto simp: unprocessedParents_def expand(6))
    have rn: "r \<notin> set acc'"
      using n1(1,2) expand(3) by auto
    have inv2: "walkInv w (acc' @ [r])"
      using inv1 rn expand(2) parentsFirst_snoc [OF _ pr]
      by (auto simp: walkInv_def)
    note ih2 = "2.IH"(4) [OF hp q refl expand(3) expand(4) expand(5) expand(6) expand(7) expand(8) inv2]
    then obtain n2 where n2: "res = (acc' @ [r]) @ n2" "set n2 \<inter> set path = {}"
      "\<forall>x \<in> set n2. ancestor w rs x" "n2 \<noteq> [] \<longrightarrow> last n2 \<in> set rs"
      and inv: "walkInv w res" and all: "\<forall>x \<in> set rs. unprocessed w x \<longrightarrow> x \<in> set res"
      by blast
    let ?new = "n1 @ [r] @ n2"
    have e: "res = acc @ ?new" using n1(1) n2(1) by simp
    have p: "set ?new \<inter> set path = {}" using n1(2) n2(2) expand(4) by auto
    have a: "\<forall>x \<in> set ?new. ancestor w (r # rs) x"
      using n1(3) n2(3) ar ancestor_of_parent [OF _ expand(6) ar]
      by (auto intro: ancestor_mono)
    have l: "?new \<noteq> [] \<longrightarrow> last ?new \<in> set (r # rs)"
      using n2(4) by (cases "n2 = []") auto
    have r: "r \<in> set res" using n2(1) by simp
    have ex: "\<exists>new. res = acc @ new \<and> set new \<inter> set path = {}
           \<and> (\<forall>x \<in> set new. ancestor w (r # rs) x)
           \<and> (new \<noteq> [] \<longrightarrow> last new \<in> set (r # rs))"
      using e p a l by (intro exI [of _ ?new] conjI)
    have all': "\<forall>x \<in> set (r # rs). unprocessed w x \<longrightarrow> x \<in> set res"
      using all r by simp
    from ex inv all' show ?thesis by (intro conjI)
  qed
qed


lemma ancestor_rank:
  fixes rank :: "string \<Rightarrow> nat"
  assumes "ancestor w ups x" "resolveUp w r = Inr ups"
    "\<forall>u \<in> set (unprocessedParents w r). rank u < rank r"
    "\<forall>y. ancestor w ups y \<longrightarrow> (\<forall>u \<in> set (unprocessedParents w y). rank u < rank y)"
  shows "rank x < rank r"
  using assms(1)
proof (induction rule: ancestor.induct)
  case (parent u)
  then have "u \<in> set (unprocessedParents w r)" by (simp add: unprocessedParents_def assms(2))
  with assms(3) show ?case by blast
next
  case (older y u)
  with assms(4) have "rank u < rank y" by (blast intro: ancestor.intros)
  with older show ?case by simp
qed

lemma walkable_tail: "walkable w rank d path (r # rs) \<Longrightarrow> walkable w rank d path rs"
  unfolding walkable_def okRefs_def
  by (meson ancestor_mono list.set_intros(2) set_subset_Cons)

lemma walkable_parents:
  assumes wk: "walkable w rank (Suc d') path (r # rs)" and u: "unprocessed w r"
    and res: "resolveUp w r = Inr ups"
  shows "walkable w rank d' (r # path) ups"
proof -
  have ar: "ancestor w (r # rs) r" using u by (auto intro: ancestor.parent)
  have lift: "\<And>x. ancestor w ups x \<Longrightarrow> ancestor w (r # rs) x"
    by (rule ancestor_of_parent [OF _ res ar])
  from wk ar res have ok: "okRefs w ups" by (auto simp: walkable_def)
  from wk ar have rr: "rank r < Suc d'" "\<forall>u \<in> set (unprocessedParents w r). rank u < rank r"
    by (auto simp: walkable_def)
  have dec: "\<forall>y. ancestor w ups y \<longrightarrow> (\<forall>u \<in> set (unprocessedParents w y). rank u < rank y)"
    using wk lift by (auto simp: walkable_def)
  have "\<And>x. ancestor w ups x \<Longrightarrow>
           (\<exists>ups'. resolveUp w x = Inr ups' \<and> okRefs w ups') \<and> rank x < d'
         \<and> (\<forall>u \<in> set (unprocessedParents w x). rank u < rank x) \<and> x \<notin> set (r # path)"
  proof -
    fix x assume ax: "ancestor w ups x"
    have lt: "rank x < rank r" by (rule ancestor_rank [OF ax res rr(2) dec])
    then have "x \<noteq> r" by auto
    moreover have "rank x < d'" using lt rr(1) by simp
    moreover have "(\<exists>ups'. resolveUp w x = Inr ups' \<and> okRefs w ups')
         \<and> (\<forall>u \<in> set (unprocessedParents w x). rank u < rank x) \<and> x \<notin> set path"
      using wk lift [OF ax] unfolding walkable_def by blast
    ultimately show "(\<exists>ups'. resolveUp w x = Inr ups' \<and> okRefs w ups') \<and> rank x < d'
         \<and> (\<forall>u \<in> set (unprocessedParents w x). rank u < rank x) \<and> x \<notin> set (r # path)"
      by simp
  qed
  with ok show ?thesis unfolding walkable_def by blast
qed

lemma walk_returns:
  "walkable w rank d path refs \<Longrightarrow> \<exists>res. walk w d path acc refs = Inr res"
proof (induction w d path acc refs rule: walk.induct)
  case (1 w d path acc)
  then show ?case by simp
next
  case (2 w d path acc r rs)
  have tl: "walkable w rank d path rs" using "2.prems" by (rule walkable_tail)
  from "2.prems" have hp: "HasPrefix r HLPrefix" and pb: "\<exists>b. isProcessed w r = Inr b"
    by (auto simp: walkable_def okRefs_def)
  then obtain b where b: "isProcessed w r = Inr b" by blast
  have nhp: "\<not> \<not> HasPrefix r HLPrefix" using hp by simp
  show ?case
  proof (cases b)
    case True
    with b have bt: "isProcessed w r = Inr True" by simp
    from "2.IH"(1) [OF nhp bt refl tl] obtain res where "walk w d path acc rs = Inr res" ..
    then show ?thesis using hp bt by simp
  next
    case False
    with b have bf: "isProcessed w r = Inr False" by simp
    show ?thesis
    proof (cases "r \<in> set acc")
      case True
      from "2.IH"(2) [OF nhp bf refl True tl] obtain res where "walk w d path acc rs = Inr res" ..
      then show ?thesis using hp bf True by simp
    next
      case nacc: False
      have u: "unprocessed w r" using bf by (simp add: unprocessed_def)
      then have ar: "ancestor w (r # rs) r" by (auto intro: ancestor.parent)
      with "2.prems" have np: "r \<notin> set path" and rk: "rank r < d"
        and rs: "\<exists>ups. resolveUp w r = Inr ups"
        by (auto simp: walkable_def)
      from rk obtain d' where d: "d = Suc d'" by (cases d) auto
      from rs obtain ups where ups: "resolveUp w r = Inr ups" ..
      have wp: "walkable w rank d' (r # path) ups"
        using "2.prems" u ups unfolding d by (rule walkable_parents)
      from "2.IH"(3) [OF nhp bf refl nacc np d ups wp]
      obtain acc' where a': "walk w d' (r # path) acc ups = Inr acc'" ..
      from "2.IH"(4) [OF nhp bf refl nacc np d ups a' tl]
      obtain res where "walk w d path (acc' @ [r]) rs = Inr res" ..
      then show ?thesis using hp bf nacc np d ups a' by simp
    qed
  qed
qed

lemma walk_complete:
  assumes "ancestor w refs x" "parentsFirst w res" "\<forall>r \<in> set refs. unprocessed w r \<longrightarrow> r \<in> set res"
  shows "x \<in> set res"
  using assms(1)
proof (induction rule: ancestor.induct)
  case (parent r)
  with assms(3) show ?case by blast
next
  case (older y u)
  with assms(2) show ?case by (blast intro: parentsFirst_closed)
qed

lemma getUnprocessedParentAnchors_result:
  assumes "getUnprocessedParentAnchors w hl ups = Inr res"
  shows "set res = {x. ancestor w ups x} \<and> distinct res \<and> parentsFirst w res
       \<and> (res \<noteq> [] \<longrightarrow> last res \<in> set ups) \<and> hl \<notin> set res"
proof -
  have i: "walkInv w []" by (simp add: walkInv_def parentsFirst_def)
  from assms have "walk w (maxDepth w) [hl] [] ups = Inr res"
    by (simp add: getUnprocessedParentAnchors_def)
  from walk_invariant [OF this i]
  have n: "set res \<inter> set [hl] = {}" "\<forall>x \<in> set res. ancestor w ups x"
    "res \<noteq> [] \<longrightarrow> last res \<in> set ups"
    and inv: "walkInv w res" and all: "\<forall>r \<in> set ups. unprocessed w r \<longrightarrow> r \<in> set res"
    by auto
  from inv have pf: "parentsFirst w res" and di: "distinct res"
    by (simp_all add: walkInv_def)
  have "\<And>x. ancestor w ups x \<Longrightarrow> x \<in> set res"
    by (rule walk_complete [OF _ pf all])
  with n(2) have eq: "set res = {x. ancestor w ups x}" by blast
  from n(1) have nh: "hl \<notin> set res" by simp
  from eq di pf n(3) nh show ?thesis by (intro conjI)
qed

text \<open>
  C1. Whenever the walk returns, it returns exactly the unprocessed ancestors of the anchor
  (the anchors reachable from its \<^verbatim>\<open>up\<close> references through unprocessed anchors), each of
  them once, every ancestor after all of its own unprocessed parents (deepest first), and a
  direct parent last. It does return when the references are hashlinks that the index can
  answer for and the unprocessed ancestors resolve, form no cycle and lie within the bound on
  the depth.
\<close>

theorem getUnprocessedParentAnchors_correct:
  fixes rank :: "string \<Rightarrow> nat"
  shows "(\<forall>res. getUnprocessedParentAnchors w hl ups = Inr res \<longrightarrow>
            set res = {x. ancestor w ups x} \<and> distinct res \<and> parentsFirst w res
          \<and> (res \<noteq> [] \<longrightarrow> last res \<in> set ups) \<and> hl \<notin> set res)
       \<and> (walkable w rank (maxDepth w) [hl] ups \<longrightarrow>
            (\<exists>res. getUnprocessedParentAnchors w hl ups = Inr res))"
proof (intro conjI allI impI)
  fix res
  assume r: "getUnprocessedParentAnchors w hl ups = Inr res"
  note p = getUnprocessedParentAnchors_result [OF r]
  from p show "set res = {x. ancestor w ups x}" by (elim conjE)
  from p show "distinct res" by (elim conjE)
  from p show "parentsFirst w res" by (elim conjE)
  from p show "hl \<notin> set res" by (elim conjE)
  assume "res \<noteq> []"
  with p show "last res \<in> set ups" by (elim conjE) (erule mp)
next
  assume "walkable w rank (maxDepth w) [hl] ups"
  then show "\<exists>res. getUnprocessedParentAnchors w hl ups = Inr res"
    unfolding getUnprocessedParentAnchors_def by (rule walk_returns)
qed

lemma sample_ancestors:
  "ancestor sampleWalker [''hl:uEiParent'', ''hl:uEiParent''] x \<Longrightarrow>
     x = ''hl:uEiParent'' \<or> x = ''hl:uEiGrandparent''"
  by (induction rule: ancestor.induct)
    (auto simp: unprocessedParents_def sampleWalker_def split: if_splits)

theorem getUnprocessedParentAnchors_correct_witness:
  "getUnprocessedParentAnchors sampleWalker ''hl:uEiAnchor'' [''hl:uEiParent'', ''hl:uEiParent'']
     = Inr [''hl:uEiGrandparent'', ''hl:uEiParent'']
   \<and> {x. ancestor sampleWalker [''hl:uEiParent'', ''hl:uEiParent''] x}
       = {''hl:uEiGrandparent'', ''hl:uEiParent''}"
proof -
  let ?ups = "[''hl:uEiParent'', ''hl:uEiParent'']"
  have ok: "okRefs sampleWalker ?ups"
    by (auto simp: okRefs_def sampleWalker_def HasPrefix_def HLPrefix_def)
  have anc: "\<And>x. ancestor sampleWalker ?ups x \<Longrightarrow>
      (\<exists>ups'. resolveUp sampleWalker x = Inr ups' \<and> okRefs sampleWalker ups')
    \<and> sampleRank x < maxDepth sampleWalker
    \<and> (\<forall>u \<in> set (unprocessedParents sampleWalker x). sampleRank u < sampleRank x)
    \<and> x \<notin> set [''hl:uEiAnchor'']"
  proof -
    fix x assume "ancestor sampleWalker ?ups x"
    then have "x = ''hl:uEiParent'' \<or> x = ''hl:uEiGrandparent''" by (rule sample_ancestors)
    then show "(\<exists>ups'. resolveUp sampleWalker x = Inr ups' \<and> okRefs sampleWalker ups')
      \<and> sampleRank x < maxDepth sampleWalker
      \<and> (\<forall>u \<in> set (unprocessedParents sampleWalker x). sampleRank u < sampleRank x)
      \<and> x \<notin> set [''hl:uEiAnchor'']"
      by (auto simp: sampleWalker_def sampleRank_def okRefs_def unprocessedParents_def
          unprocessed_def HasPrefix_def HLPrefix_def)
  qed
  have wk: "walkable sampleWalker sampleRank (maxDepth sampleWalker) [''hl:uEiAnchor''] ?ups"
    unfolding walkable_def using ok anc by blast
  from getUnprocessedParentAnchors_correct [of sampleWalker "''hl:uEiAnchor''" ?ups sampleRank] wk
  obtain res where res: "getUnprocessedParentAnchors sampleWalker ''hl:uEiAnchor'' ?ups = Inr res"
    and s: "set res = {x. ancestor sampleWalker ?ups x}"
    by blast
  have ev: "getUnprocessedParentAnchors sampleWalker ''hl:uEiAnchor'' ?ups
              = Inr [''hl:uEiGrandparent'', ''hl:uEiParent'']"
    by code_simp
  with res have r: "res = [''hl:uEiGrandparent'', ''hl:uEiParent'']" by simp
  have "{x. ancestor sampleWalker ?ups x} = set res" using s by (rule sym)
  also have "\<dots> = {''hl:uEiGrandparent'', ''hl:uEiParent''}" unfolding r by simp
  finally have c: "{x. ancestor sampleWalker ?ups x} = {''hl:uEiGrandparent'', ''hl:uEiParent''}" .
  from ev c show ?thesis by (rule conjI)
qed

end
